theory Spec2Isabelle
  imports Main "HOL-Library.Word"
begin

section \<open>JavaScript values and JSON text\<close>

text \<open>
  The module stores JavaScript values as JSON text in a MySQL column of type JSON.
  Two value types are kept apart:
  \<^item> \<open>json\<close>: what a JSON text denotes, and what \<open>JSON.parse\<close> without a reviver returns
    (null, booleans, numbers, strings, arrays, objects in key order);
  \<^item> \<open>val\<close>: the values the callers hold in memory, which in addition contain raw byte
    sequences (Node Buffers).
  Numbers are integers; a JavaScript string is a \<open>string\<close>.
\<close>

datatype json =
    JNull
  | JBool bool
  | JNum int
  | JStr string
  | JArr "json list"
  | JObj "(string \<times> json) list"

datatype val =
    VNull
  | VBool bool
  | VNum int
  | VStr string
  | VArr "val list"
  | VObj "(string \<times> val) list"
  | VBuf "8 word list"

text \<open>JavaScript truthiness, as \<open>!x\<close>, \<open>if (x)\<close> and \<open>x || y\<close> test it.\<close>

fun truthy_json :: "json \<Rightarrow> bool" where
  "truthy_json JNull = False"
| "truthy_json (JBool b) = b"
| "truthy_json (JNum n) = (n \<noteq> 0)"
| "truthy_json (JStr s) = (s \<noteq> [])"
| "truthy_json (JArr xs) = True"
| "truthy_json (JObj ms) = True"

fun truthy :: "val \<Rightarrow> bool" where
  "truthy VNull = False"
| "truthy (VBool b) = b"
| "truthy (VNum n) = (n \<noteq> 0)"
| "truthy (VStr s) = (s \<noteq> [])"
| "truthy (VArr xs) = True"
| "truthy (VObj fs) = True"
| "truthy (VBuf bs) = True"

text \<open>\<open>typeof x === 'object'\<close>: true of null, arrays and objects.\<close>

fun typeof_object :: "json \<Rightarrow> bool" where
  "typeof_object JNull = True"
| "typeof_object (JArr xs) = True"
| "typeof_object (JObj ms) = True"
| "typeof_object (JBool b) = False"
| "typeof_object (JNum n) = False"
| "typeof_object (JStr s) = False"

subsection \<open>\<open>JSON.stringify\<close>\<close>

text \<open>
  The compact text \<open>JSON.stringify\<close> writes: no white space, decimal integers, strings in
  double quotes with the quote (0x22) and the backslash (0x5C) escaped by a backslash.
\<close>

definition digit_char :: "nat \<Rightarrow> char" where
  "digit_char d = char_of (48 + d)"

function show_nat :: "nat \<Rightarrow> string" where
  "show_nat n = (if n < 10 then [digit_char n] else show_nat (n div 10) @ [digit_char (n mod 10)])"
  by pat_completeness auto
termination
  by (relation "measure (\<lambda>n. n)") auto

declare show_nat.simps [simp del]

definition show_int :: "int \<Rightarrow> string" where
  "show_int i = (if i < 0 then CHR ''-'' # show_nat (nat (- i)) else show_nat (nat i))"

fun escape :: "string \<Rightarrow> string" where
  "escape [] = []"
| "escape (c # cs) =
     (if c = CHR 0x22 \<or> c = CHR 0x5C then CHR 0x5C # c # escape cs else c # escape cs)"

definition quote :: "string \<Rightarrow> string" where
  "quote s = CHR 0x22 # escape s @ [CHR 0x22]"

fun JSON_stringify :: "json \<Rightarrow> string"
  and stringify_elems :: "json list \<Rightarrow> string"
  and stringify_members :: "(string \<times> json) list \<Rightarrow> string"
where
  "JSON_stringify JNull = ''null''"
| "JSON_stringify (JBool b) = (if b then ''true'' else ''false'')"
| "JSON_stringify (JNum n) = show_int n"
| "JSON_stringify (JStr s) = quote s"
| "JSON_stringify (JArr []) = ''[]''"
| "JSON_stringify (JArr (x # xs)) = CHR ''['' # JSON_stringify x @ stringify_elems xs"
| "JSON_stringify (JObj []) = ''{}''"
| "JSON_stringify (JObj ((k, x) # ms)) =
     CHR ''{'' # quote k @ CHR '':'' # JSON_stringify x @ stringify_members ms"
| "stringify_elems [] = '']''"
| "stringify_elems (x # xs) = CHR '','' # JSON_stringify x @ stringify_elems xs"
| "stringify_members [] = ''}''"
| "stringify_members ((k, x) # ms) =
     CHR '','' # quote k @ CHR '':'' # JSON_stringify x @ stringify_members ms"

subsection \<open>\<open>JSON.parse\<close>\<close>

text \<open>
  A recursive-descent reader of the same compact syntax. A text it cannot read makes
  \<open>JSON.parse\<close> throw a SyntaxError: the result is \<open>None\<close>. The fuel bounds the nesting
  depth; \<open>JSON_parse\<close> gives one unit per character and one more, which always suffices.
\<close>

definition is_digit :: "char \<Rightarrow> bool" where
  "is_digit c = ((48::nat) \<le> of_char c \<and> (of_char c :: nat) \<le> 57)"

definition digit_val :: "char \<Rightarrow> nat" where
  "digit_val c = (of_char c :: nat) - 48"

definition parse_nat :: "string \<Rightarrow> (nat \<times> string) option" where
  "parse_nat s =
     (let ds = takeWhile is_digit s in
      if ds = [] then None
      else Some (foldl (\<lambda>a c. 10 * a + digit_val c) 0 ds, dropWhile is_digit s))"

definition parse_number :: "string \<Rightarrow> (json \<times> string) option" where
  "parse_number s =
     (case s of
        [] \<Rightarrow> None
      | c # cs \<Rightarrow>
          if c = CHR ''-'' then
            (case parse_nat cs of None \<Rightarrow> None | Some (n, r) \<Rightarrow> Some (JNum (- int n), r))
          else
            (case parse_nat s of None \<Rightarrow> None | Some (n, r) \<Rightarrow> Some (JNum (int n), r)))"

fun parse_string :: "string \<Rightarrow> (string \<times> string) option" where
  "parse_string [] = None"
| "parse_string [c] = (if c = CHR 0x22 then Some ([], []) else None)"
| "parse_string (c # d # cs) =
     (if c = CHR 0x22 then Some ([], d # cs)
      else if c = CHR 0x5C then
        (if d = CHR 0x22 \<or> d = CHR 0x5C then
           (case parse_string cs of None \<Rightarrow> None | Some (s, r) \<Rightarrow> Some (d # s, r))
         else None)
      else
        (case parse_string (d # cs) of None \<Rightarrow> None | Some (s, r) \<Rightarrow> Some (c # s, r)))"

fun strip_prefix :: "string \<Rightarrow> string \<Rightarrow> string option" where
  "strip_prefix [] s = Some s"
| "strip_prefix (p # ps) [] = None"
| "strip_prefix (p # ps) (c # cs) = (if p = c then strip_prefix ps cs else None)"

fun parse_value :: "nat \<Rightarrow> string \<Rightarrow> (json \<times> string) option"
  and parse_elems :: "nat \<Rightarrow> string \<Rightarrow> (json list \<times> string) option"
  and parse_members :: "nat \<Rightarrow> string \<Rightarrow> ((string \<times> json) list \<times> string) option"
where
  "parse_value 0 s = None"
| "parse_value (Suc n) [] = None"
| "parse_value (Suc n) (c # cs) =
     (if c = CHR ''n'' then
        (case strip_prefix ''ull'' cs of None \<Rightarrow> None | Some r \<Rightarrow> Some (JNull, r))
      else if c = CHR ''t'' then
        (case strip_prefix ''rue'' cs of None \<Rightarrow> None | Some r \<Rightarrow> Some (JBool True, r))
      else if c = CHR ''f'' then
        (case strip_prefix ''alse'' cs of None \<Rightarrow> None | Some r \<Rightarrow> Some (JBool False, r))
      else if c = CHR 0x22 then
        (case parse_string cs of None \<Rightarrow> None | Some (s, r) \<Rightarrow> Some (JStr s, r))
      else if c = CHR ''['' then
        (case strip_prefix '']'' cs of
           Some r \<Rightarrow> Some (JArr [], r)
         | None \<Rightarrow>
             (case parse_value n cs of
                None \<Rightarrow> None
              | Some (x, r) \<Rightarrow>
                  (case parse_elems n r of
                     None \<Rightarrow> None
                   | Some (xs, r') \<Rightarrow> Some (JArr (x # xs), r'))))
      else if c = CHR ''{'' then
        (case strip_prefix ''}'' cs of
           Some r \<Rightarrow> Some (JObj [], r)
         | None \<Rightarrow>
             (case strip_prefix [CHR 0x22] cs of
                None \<Rightarrow> None
              | Some r0 \<Rightarrow>
                  (case parse_string r0 of
                     None \<Rightarrow> None
                   | Some (k, r1) \<Rightarrow>
                       (case strip_prefix '':'' r1 of
                          None \<Rightarrow> None
                        | Some r2 \<Rightarrow>
                            (case parse_value n r2 of
                               None \<Rightarrow> None
                             | Some (x, r3) \<Rightarrow>
                                 (case parse_members n r3 of
                                    None \<Rightarrow> None
                                  | Some (ms, r4) \<Rightarrow> Some (JObj ((k, x) # ms), r4)))))))
      else parse_number (c # cs))"
| "parse_elems 0 s = None"
| "parse_elems (Suc n) [] = None"
| "parse_elems (Suc n) (c # cs) =
     (if c = CHR '']'' then Some ([], cs)
      else if c = CHR '','' then
        (case parse_value n cs of
           None \<Rightarrow> None
         | Some (x, r) \<Rightarrow>
             (case parse_elems n r of None \<Rightarrow> None | Some (xs, r') \<Rightarrow> Some (x # xs, r')))
      else None)"
| "parse_members 0 s = None"
| "parse_members (Suc n) [] = None"
| "parse_members (Suc n) (c # cs) =
     (if c = CHR ''}'' then Some ([], cs)
      else if c = CHR '','' then
        (case strip_prefix [CHR 0x22] cs of
           None \<Rightarrow> None
         | Some r0 \<Rightarrow>
             (case parse_string r0 of
                None \<Rightarrow> None
              | Some (k, r1) \<Rightarrow>
                  (case strip_prefix '':'' r1 of
                     None \<Rightarrow> None
                   | Some r2 \<Rightarrow>
                       (case parse_value n r2 of
                          None \<Rightarrow> None
                        | Some (x, r3) \<Rightarrow>
                            (case parse_members n r3 of
                               None \<Rightarrow> None
                             | Some (ms, r4) \<Rightarrow> Some ((k, x) # ms, r4))))))
      else None)"

definition JSON_parse :: "string \<Rightarrow> json option" where
  "JSON_parse s =
     (case parse_value (Suc (length s)) s of
        Some (j, []) \<Rightarrow> Some j
      | _ \<Rightarrow> None)"

section \<open>The codec: \<open>BufferJSON\<close>\<close>

text \<open>
  \<open>BufferJSON.replacer\<close> and \<open>BufferJSON.reviver\<close> are imported from \<open>../Utils\<close>, which is
  not among the sources. The spec (section 4.1) has the codec tag every raw byte sequence
  with a recognizable marker object containing the encoded bytes, and has deserialization
  detect the marker and rebuild the byte sequence; values without markers pass through
  as plain data.
\<close>

text \<open>Modelled from the spec: the marker object of a byte sequence (\<open>BufferJSON\<close>, missing).
  It is the object with exactly the two fields \<open>type = "Buffer"\<close> and \<open>data\<close>, the array
  of the byte values.\<close>

definition marker :: "8 word list \<Rightarrow> json" where
  "marker bs = JObj [(''type'', JStr ''Buffer''), (''data'', JArr (map (\<lambda>b. JNum (uint b)) bs))]"

text \<open>Modelled from the spec: \<open>BufferJSON.replacer\<close> (missing), applied by
  \<open>JSON.stringify(value, BufferJSON.replacer)\<close> to every node: it gives the tree that is
  written as text, with each byte sequence replaced by its marker.\<close>

fun replacer :: "val \<Rightarrow> json"
  and replacer_list :: "val list \<Rightarrow> json list"
  and replacer_fields :: "(string \<times> val) list \<Rightarrow> (string \<times> json) list"
where
  "replacer VNull = JNull"
| "replacer (VBool b) = JBool b"
| "replacer (VNum n) = JNum n"
| "replacer (VStr s) = JStr s"
| "replacer (VArr xs) = JArr (replacer_list xs)"
| "replacer (VObj fs) = JObj (replacer_fields fs)"
| "replacer (VBuf bs) = marker bs"
| "replacer_list [] = []"
| "replacer_list (x # xs) = replacer x # replacer_list xs"
| "replacer_fields [] = []"
| "replacer_fields ((k, x) # fs) = (k, replacer x) # replacer_fields fs"

definition serialize :: "val \<Rightarrow> string" where
  "serialize v = JSON_stringify (replacer v)"

text \<open>Modelled from the spec: how \<open>BufferJSON.reviver\<close> (missing) detects a marker
  and which bytes it holds; \<open>None\<close> for any other value.\<close>

fun decode_bytes :: "json list \<Rightarrow> 8 word list option" where
  "decode_bytes [] = Some []"
| "decode_bytes (JNum n # xs) =
     (if 0 \<le> n \<and> n < 256 then
        (case decode_bytes xs of None \<Rightarrow> None | Some bs \<Rightarrow> Some (word_of_int n # bs))
      else None)"
| "decode_bytes (x # xs) = None"

fun unmarker :: "json \<Rightarrow> 8 word list option" where
  "unmarker (JObj [(k1, JStr t), (k2, JArr xs)]) =
     (if k1 = ''type'' \<and> t = ''Buffer'' \<and> k2 = ''data'' then decode_bytes xs else None)"
| "unmarker j = None"

text \<open>Modelled from the spec: \<open>BufferJSON.reviver\<close> (missing), applied by
  \<open>JSON.parse(text, BufferJSON.reviver)\<close> to every node after the text is read: each
  marker object becomes the byte sequence it holds.\<close>

fun reviver :: "json \<Rightarrow> val"
  and reviver_list :: "json list \<Rightarrow> val list"
  and reviver_fields :: "(string \<times> json) list \<Rightarrow> (string \<times> val) list"
where
  "reviver JNull = VNull"
| "reviver (JBool b) = VBool b"
| "reviver (JNum n) = VNum n"
| "reviver (JStr s) = VStr s"
| "reviver (JArr xs) = VArr (reviver_list xs)"
| "reviver (JObj ms) =
     (case unmarker (JObj ms) of Some bs \<Rightarrow> VBuf bs | None \<Rightarrow> VObj (reviver_fields ms))"
| "reviver_list [] = []"
| "reviver_list (x # xs) = reviver x # reviver_list xs"
| "reviver_fields [] = []"
| "reviver_fields ((k, x) # ms) = (k, reviver x) # reviver_fields ms"

definition deserialize :: "string \<Rightarrow> val option" where
  "deserialize s = (case JSON_parse s of None \<Rightarrow> None | Some j \<Rightarrow> Some (reviver j))"

text \<open>
  A plain object that has the marker's own shape is written exactly as a byte sequence is,
  and is read back as one. \<open>marker_free v\<close>: no object inside \<open>v\<close> (or \<open>v\<close> itself) is such
  a look-alike. Byte sequences themselves are not restricted.
\<close>

fun marker_free :: "val \<Rightarrow> bool"
  and marker_free_list :: "val list \<Rightarrow> bool"
  and marker_free_fields :: "(string \<times> val) list \<Rightarrow> bool"
where
  "marker_free (VArr xs) = marker_free_list xs"
| "marker_free (VObj fs) = (unmarker (JObj (replacer_fields fs)) = None \<and> marker_free_fields fs)"
| "marker_free VNull = True"
| "marker_free (VBool b) = True"
| "marker_free (VNum n) = True"
| "marker_free (VStr s) = True"
| "marker_free (VBuf bs) = True"
| "marker_free_list [] = True"
| "marker_free_list (x # xs) = (marker_free x \<and> marker_free_list xs)"
| "marker_free_fields [] = True"
| "marker_free_fields ((k, x) # fs) = (marker_free x \<and> marker_free_fields fs)"

text \<open>The TypeScript type \<open>object\<close> of \<open>writeData\<close>'s parameter: arrays, objects and
  byte sequences, no primitive value and no null.\<close>

fun is_object :: "val \<Rightarrow> bool" where
  "is_object (VArr xs) = True"
| "is_object (VObj fs) = True"
| "is_object (VBuf bs) = True"
| "is_object v = False"

section \<open>Configuration\<close>

text \<open>
  \<open>MySQLConfig\<close> (declared in \<open>../Types\<close>): every option may be left out. The code reads
  the options with \<open>config.x || default\<close>, which also replaces a falsy given value (the
  empty string, the number 0) by the default.
\<close>

record MySQLConfig =
  cfg_database :: "string option"
  cfg_host :: "string option"
  cfg_port :: "int option"
  cfg_user :: "string option"
  cfg_password :: "string option"
  cfg_password1 :: "string option"
  cfg_password2 :: "string option"
  cfg_password3 :: "string option"
  cfg_ssl :: "string option"
  cfg_localAddress :: "string option"
  cfg_socketPath :: "string option"
  cfg_insecureAuth :: "bool option"
  cfg_isServer :: "bool option"
  cfg_tableName :: "string option"
  cfg_retryRequestDelayMs :: "int option"
  cfg_maxtRetries :: "int option"

definition or_string :: "string option \<Rightarrow> string \<Rightarrow> string" where
  "or_string x d = (case x of None \<Rightarrow> d | Some s \<Rightarrow> if s = [] then d else s)"

definition or_number :: "int option \<Rightarrow> int \<Rightarrow> int" where
  "or_number x d = (case x of None \<Rightarrow> d | Some n \<Rightarrow> if n = 0 then d else n)"

definition or_false :: "bool option \<Rightarrow> bool" where
  "or_false x = (case x of None \<Rightarrow> False | Some b \<Rightarrow> b)"

text \<open>The argument of \<open>createConnection\<close> (lines 12 to 28).\<close>

record ConnectionOptions =
  database :: string
  host :: string
  port :: int
  user :: string
  password :: "string option"
  password1 :: "string option"
  password2 :: "string option"
  password3 :: "string option"
  enableKeepAlive :: bool
  keepAliveInitialDelay :: int
  ssl :: "string option"
  localAddress :: "string option"
  socketPath :: "string option"
  insecureAuth :: bool
  isServer :: bool

definition connection_options :: "MySQLConfig \<Rightarrow> ConnectionOptions" where
  "connection_options config =
     \<lparr> database = or_string (cfg_database config) ''base'',
       host = or_string (cfg_host config) ''localhost'',
       port = or_number (cfg_port config) 3306,
       user = or_string (cfg_user config) ''root'',
       password = cfg_password config,
       password1 = cfg_password1 config,
       password2 = cfg_password2 config,
       password3 = cfg_password3 config,
       enableKeepAlive = True,
       keepAliveInitialDelay = 5000,
       ssl = cfg_ssl config,
       localAddress = cfg_localAddress config,
       socketPath = cfg_socketPath config,
       insecureAuth = or_false (cfg_insecureAuth config),
       isServer = or_false (cfg_isServer config) \<rparr>"

section \<open>The database and the driver\<close>

text \<open>
  The statements the module sends, by their abstract syntax; the first argument is the
  table name spliced into the text:
  \<^item> \<open>CreateTable t\<close>: \<^verbatim>\<open>CREATE TABLE IF NOT EXISTS `t` (`id` VARCHAR(80) NOT NULL PRIMARY KEY, `value` JSON DEFAULT NULL)\<close>
  \<^item> \<open>Select t id\<close>: \<^verbatim>\<open>SELECT value FROM t WHERE id = ?\<close>
  \<^item> \<open>Upsert t id v u\<close>: \<^verbatim>\<open>INSERT INTO t (id, value) VALUES (?, ?) ON DUPLICATE KEY UPDATE value = ?\<close>
  \<^item> \<open>DeleteId t id\<close>: \<^verbatim>\<open>DELETE FROM t WHERE id = ?\<close>
  \<^item> \<open>DeleteNotCreds t\<close>: \<^verbatim>\<open>DELETE FROM t WHERE id != 'creds'\<close>
  \<^item> \<open>DeleteAll t\<close>: \<^verbatim>\<open>DELETE FROM t\<close>
  \<^item> \<open>DropTable t\<close>: \<^verbatim>\<open>DROP TABLE IF EXISTS t\<close>
  \<^item> \<open>Raw sql values\<close>: any other statement, which only a caller of the raw \<open>query\<close> can
    send, by its text and its values.
\<close>

datatype stmt =
    CreateTable string
  | Select string string
  | Upsert string string string string
  | DeleteId string string
  | DeleteNotCreds string
  | DeleteAll string
  | DropTable string
  | Raw string "string list"

text \<open>
  A table is the list of its rows \<open>(id, value)\<close>; the value is a JSON document or SQL NULL
  (\<open>None\<close>). What the driver resolves a statement to: the rows of a SELECT, each given by
  its \<open>value\<close> property, or the header of a statement that returns no rows.
\<close>

type_synonym table = "(string \<times> json option) list"

type_synonym database = "string \<Rightarrow> table option"

datatype sqlData = Rows "json list" | ResultSetHeader

text \<open>
  The \<open>value\<close> property of a row as the driver hands it over: SQL NULL is \<open>null\<close>; a
  document arrives parsed when the driver casts JSON columns (\<open>typeCast\<close>), and as its
  text otherwise.
\<close>

definition cell :: "bool \<Rightarrow> json option \<Rightarrow> json" where
  "cell cast c = (case c of None \<Rightarrow> JNull | Some d \<Rightarrow> if cast then d else JStr (JSON_stringify d))"

text \<open>
  What the server does with a statement; \<open>None\<close> is an SQL error (a table that does not
  exist, an id longer than the 80 characters of its column, a text that is no JSON
  document). A failed statement changes nothing. The primary key keeps one row per id:
  \<open>upsert_row\<close> inserts the document \<open>d\<close> under a new id and, where the id exists, stores
  the document \<open>e\<close> of the \<open>ON DUPLICATE KEY UPDATE\<close> clause in its row. A DELETE keeps the
  rows its condition does not select. Ids are compared as strings. What the server does
  with any other statement is left open: it is the parameter \<open>other\<close>.
\<close>

definition upsert_row :: "string \<Rightarrow> json \<Rightarrow> json \<Rightarrow> table \<Rightarrow> table" where
  "upsert_row i d e rows =
     (if i \<in> fst ` set rows then map (\<lambda>r. if fst r = i then (i, Some e) else r) rows
      else rows @ [(i, Some d)])"

type_synonym server = "string \<Rightarrow> string list \<Rightarrow> database \<Rightarrow> (sqlData \<times> database) option"

fun sql_exec :: "server \<Rightarrow> bool \<Rightarrow> stmt \<Rightarrow> database \<Rightarrow> (sqlData \<times> database) option" where
  "sql_exec other cast (CreateTable t) db =
     Some (ResultSetHeader, if db t = None then db(t \<mapsto> []) else db)"
| "sql_exec other cast (Select t i) db =
     (case db t of
        None \<Rightarrow> None
      | Some rows \<Rightarrow> Some (Rows (map (\<lambda>r. cell cast (snd r)) (filter (\<lambda>r. fst r = i) rows)), db))"
| "sql_exec other cast (Upsert t i v u) db =
     (case db t of
        None \<Rightarrow> None
      | Some rows \<Rightarrow>
          if 80 < length i then None
          else
            (case JSON_parse v of
               None \<Rightarrow> None
             | Some d \<Rightarrow>
                 if i \<in> fst ` set rows then
                   (case JSON_parse u of
                      None \<Rightarrow> None
                    | Some e \<Rightarrow> Some (ResultSetHeader, db(t \<mapsto> upsert_row i d e rows)))
                 else Some (ResultSetHeader, db(t \<mapsto> upsert_row i d d rows))))"
| "sql_exec other cast (DeleteId t i) db =
     (case db t of
        None \<Rightarrow> None
      | Some rows \<Rightarrow> Some (ResultSetHeader, db(t \<mapsto> filter (\<lambda>r. fst r \<noteq> i) rows)))"
| "sql_exec other cast (DeleteNotCreds t) db =
     (case db t of
        None \<Rightarrow> None
      | Some rows \<Rightarrow> Some (ResultSetHeader, db(t \<mapsto> filter (\<lambda>r. fst r = ''creds'') rows)))"
| "sql_exec other cast (DeleteAll t) db =
     (case db t of None \<Rightarrow> None | Some rows \<Rightarrow> Some (ResultSetHeader, db(t \<mapsto> [])))"
| "sql_exec other cast (DropTable t) db = Some (ResultSetHeader, db(t := None))"
| "sql_exec other cast (Raw q vs) db = other q vs db"

text \<open>
  The errors that reach a caller: a rejected \<open>createConnection\<close> or \<open>execute\<close>, a rejected
  \<open>query\<close>, the SyntaxError of \<open>JSON.parse\<close>, and the TypeError of an assignment that a
  property of a prototype refuses (a module is strict code).
\<close>

datatype error = ConnectError | QueryError | SyntaxError | TypeError

datatype event =
    CreateConnection ConnectionOptions
  | Execute nat stmt
  | Query nat stmt
  | Sleep int

text \<open>
  The world outside the functions of the module:
  \<^item> \<open>conn\<close>: the module-level variable \<open>let conn\<close> (line 5), \<open>None\<close> while undefined;
    a handle is the address of a connection object;
  \<^item> \<open>next_handle\<close>, \<open>handle_options\<close>, \<open>closing\<close>: the connection objects made so far, the
    options each was made with and its \<open>_closing\<close> flag, which the driver sets;
  \<^item> \<open>tables\<close>, \<open>other_sql\<close>, \<open>typeCast\<close>: the database, what its server does with
    statements the module does not send itself, and how the driver returns JSON columns;
  \<^item> \<open>fails\<close>, \<open>clock\<close>: the \<open>n\<close>-th call of the driver fails (the promise is rejected)
    when \<open>fails n\<close>, and has no effect on the database then; the clock counts the calls;
  \<^item> \<open>trace\<close>: the calls of the driver and the waits, in order.
\<close>

record world =
  conn :: "nat option"
  next_handle :: nat
  handle_options :: "nat \<Rightarrow> ConnectionOptions option"
  closing :: "nat \<Rightarrow> bool"
  tables :: database
  other_sql :: server
  typeCast :: bool
  fails :: "nat \<Rightarrow> bool"
  clock :: nat
  trace :: "event list"

definition driver_call :: "event \<Rightarrow> world \<Rightarrow> world" where
  "driver_call e w = w\<lparr> clock := Suc (clock w), trace := trace w @ [e] \<rparr>"

definition createConnection :: "ConnectionOptions \<Rightarrow> world \<Rightarrow> (error + nat) \<times> world" where
  "createConnection opts w =
     (let w1 = driver_call (CreateConnection opts) w in
      if fails w (clock w) then (Inl ConnectError, w1)
      else (Inr (next_handle w),
            w1\<lparr> next_handle := Suc (next_handle w),
                handle_options := (handle_options w)(next_handle w := Some opts),
                closing := (closing w)(next_handle w := False) \<rparr>))"

definition run_statement :: "stmt \<Rightarrow> world \<Rightarrow> world \<Rightarrow> (error + sqlData) \<times> world" where
  "run_statement s w w1 =
     (if fails w (clock w) then (Inl QueryError, w1)
      else
        (case sql_exec (other_sql w) (typeCast w) s (tables w) of
           None \<Rightarrow> (Inl QueryError, w1)
         | Some (d, db) \<Rightarrow> (Inr d, w1\<lparr> tables := db \<rparr>)))"

text \<open>\<open>conn.execute(sql)\<close> and \<open>sqlConn.query(sql, values)\<close> on the handle \<open>h\<close>.\<close>

definition conn_execute :: "nat \<Rightarrow> stmt \<Rightarrow> world \<Rightarrow> (error + sqlData) \<times> world" where
  "conn_execute h s w = run_statement s w (driver_call (Execute h s) w)"

definition conn_query :: "nat \<Rightarrow> stmt \<Rightarrow> world \<Rightarrow> (error + sqlData) \<times> world" where
  "conn_query h s w = run_statement s w (driver_call (Query h s) w)"

text \<open>\<open>await new Promise(r => setTimeout(r, ms))\<close>\<close>

definition sleep :: "int \<Rightarrow> world \<Rightarrow> world" where
  "sleep ms w = w\<lparr> trace := trace w @ [Sleep ms] \<rparr>"

section \<open>The connection manager\<close>

text \<open>\<open>connection(config, force)\<close>, lines 7 to 41. An error of \<open>createConnection\<close> or of
  \<open>conn.execute\<close> is not caught: it leaves the function at once.\<close>

definition ended :: "world \<Rightarrow> bool" where
  "ended w = (case conn w of None \<Rightarrow> False | Some h \<Rightarrow> closing w h)"

definition newConnection :: "world \<Rightarrow> bool" where
  "newConnection w = (conn w = None)"

definition connection :: "MySQLConfig \<Rightarrow> bool \<Rightarrow> world \<Rightarrow> (error + nat) \<times> world" where
  "connection config force w =
     (if newConnection w \<or> ended w \<or> force then
        (case createConnection (connection_options config) w of
           (Inl e, w1) \<Rightarrow> (Inl e, w1)
         | (Inr h, w1) \<Rightarrow>
             (let w2 = w1\<lparr> conn := Some h \<rparr> in
              if newConnection w then
                (case conn_execute h (CreateTable (or_string (cfg_tableName config) ''auth'')) w2 of
                   (Inl e, w3) \<Rightarrow> (Inl e, w3)
                 | (Inr d, w3) \<Rightarrow> (Inr h, w3))
              else (Inr h, w2)))
      else
        (case conn w of
           Some h \<Rightarrow> (Inr h, w)
         | None \<Rightarrow> (Inl ConnectError, w)))"

text \<open>The last case is never taken: with no handle, \<open>newConnection\<close> holds.\<close>

section \<open>The store: \<open>useMySQLAuthState\<close>\<close>

text \<open>
  \<open>keys.get\<close> fills a plain object (\<open>const data = {}\<close>, line 102) by assignment
  (\<open>data[id] = value\<close>, line 108). A plain object is not a table of keys: it has own
  properties and a prototype, at first \<open>Object.prototype\<close>, and an assignment to a key
  that is not an own property looks the key up along the prototypes before it creates a
  property.
\<close>

datatype prototype = ObjectPrototype | NullPrototype | ValuePrototype val

record plain_object =
  own :: "string \<rightharpoonup> val"
  proto :: prototype

text \<open>The object literal \<open>{}\<close>.\<close>

definition empty_object :: plain_object where
  "empty_object = \<lparr> own = Map.empty, proto = ObjectPrototype \<rparr>"

text \<open>
  The helpers imported from \<open>../Utils\<close>, which is not among the sources, are parameters
  of the model: \<open>fresh_bundle\<close> holds the fields that the generator of credentials gives
  the bundle it makes, and \<open>fromObject\<close> converts a decoded app-state sync key into its
  typed representation (spec, section 4.5); nothing more is known of either. The type of
  the byte sequences that the codec builds is not among the sources either:
  \<open>assign_under_bytes\<close> is what an assignment of a value to a key does to an object
  whose prototype is a byte sequence and which has no own property of that key.
\<close>

record utils =
  fresh_bundle :: "(string \<times> val) list"
  fromObject :: "val \<Rightarrow> val"
  assign_under_bytes :: "8 word list \<Rightarrow> string \<Rightarrow> val \<Rightarrow> plain_object \<Rightarrow> error + plain_object"

text \<open>Modelled from the spec: \<open>initAuthCreds\<close> (missing) generates a fresh default
  credential bundle (sections 3 and 4.5); the bundle is an object.\<close>

definition initAuthCreds :: "utils \<Rightarrow> val" where
  "initAuthCreds U = VObj (fresh_bundle U)"

text \<open>The constants that the closures of \<open>useMySQLAuthState\<close> capture (lines 51 to 54).\<close>

record locals =
  sqlConn :: nat
  tableName :: string
  retryRequestDelayMs :: int
  maxtRetries :: int

subsection \<open>The retrying executor\<close>

text \<open>\<open>query\<close>, lines 56 to 66: \<open>query_from st s x w\<close> is the loop entered with the
  counter at \<open>x\<close>.\<close>

function query_from :: "locals \<Rightarrow> stmt \<Rightarrow> int \<Rightarrow> world \<Rightarrow> sqlData \<times> world" where
  "query_from st s x w =
     (if x < maxtRetries st then
        (case conn_query (sqlConn st) s w of
           (Inr rows, w1) \<Rightarrow> (rows, w1)
         | (Inl e, w1) \<Rightarrow> query_from st s (x + 1) (sleep (retryRequestDelayMs st) w1))
      else (Rows [], w))"
  by pat_completeness auto
termination
  by (relation "measure (\<lambda>(st, s, x, w). nat (maxtRetries st - x))") auto

declare query_from.simps [simp del]

definition query :: "locals \<Rightarrow> stmt \<Rightarrow> world \<Rightarrow> sqlData \<times> world" where
  "query st s w = query_from st s 0 w"

subsection \<open>Reading and writing records\<close>

text \<open>\<open>data[0]?.value\<close>: \<open>None\<close> is \<open>undefined\<close>.\<close>

fun first_value :: "sqlData \<Rightarrow> json option" where
  "first_value (Rows (v # vs)) = Some v"
| "first_value (Rows []) = None"
| "first_value ResultSetHeader = None"

text \<open>
  The string that \<open>JSON.parse\<close> makes of an argument that is not one (ToString): a number
  or boolean is turned into its text, an array into its elements joined by commas (with
  nothing for null), an object into \<open>[object Object]\<close>.
\<close>

fun to_string :: "json \<Rightarrow> string"
  and join_strings :: "json list \<Rightarrow> string"
where
  "to_string (JStr s) = s"
| "to_string (JNum n) = show_int n"
| "to_string (JBool b) = (if b then ''true'' else ''false'')"
| "to_string JNull = ''null''"
| "to_string (JObj ms) = ''[object Object]''"
| "to_string (JArr xs) = join_strings xs"
| "join_strings [] = []"
| "join_strings [x] = (if x = JNull then [] else to_string x)"
| "join_strings (x # y # ys) =
     (if x = JNull then [] else to_string x) @ CHR '','' # join_strings (y # ys)"

text \<open>Line 71, \<open>typeof value === 'object' ? JSON.stringify(value) : value\<close>, as the text
  that \<open>JSON.parse\<close> reads in line 72.\<close>

definition raw_text :: "json \<Rightarrow> string" where
  "raw_text v = to_string (if typeof_object v then JStr (JSON_stringify v) else v)"

text \<open>Lines 70 to 72, as a function of \<open>data[0]?.value\<close>.\<close>

definition decode_value :: "json option \<Rightarrow> error + val" where
  "decode_value x =
     (case x of
        None \<Rightarrow> Inr VNull
      | Some v \<Rightarrow>
          if \<not> truthy_json v then Inr VNull
          else
            (case deserialize (raw_text v) of
               None \<Rightarrow> Inl SyntaxError
             | Some y \<Rightarrow> Inr y))"

definition readData :: "locals \<Rightarrow> string \<Rightarrow> world \<Rightarrow> (error + val) \<times> world" where
  "readData st ident w =
     (case query st (Select (tableName st) ident) w of
        (data, w1) \<Rightarrow> (decode_value (first_value data), w1))"

definition writeData :: "locals \<Rightarrow> string \<Rightarrow> val \<Rightarrow> world \<Rightarrow> (error + unit) \<times> world" where
  "writeData st ident v w =
     (let valueFixed = serialize v in
      case query st (Upsert (tableName st) ident valueFixed valueFixed) w of
        (d, w1) \<Rightarrow> (Inr (), w1))"

definition removeData :: "locals \<Rightarrow> string \<Rightarrow> world \<Rightarrow> (error + unit) \<times> world" where
  "removeData st ident w =
     (case query st (DeleteId (tableName st) ident) w of (d, w1) \<Rightarrow> (Inr (), w1))"

definition clearAll :: "locals \<Rightarrow> world \<Rightarrow> (error + unit) \<times> world" where
  "clearAll st w =
     (case query st (DeleteNotCreds (tableName st)) w of (d, w1) \<Rightarrow> (Inr (), w1))"

definition removeAll :: "locals \<Rightarrow> world \<Rightarrow> (error + unit) \<times> world" where
  "removeAll st w =
     (case query st (DeleteAll (tableName st)) w of (d, w1) \<Rightarrow> (Inr (), w1))"

subsection \<open>The facade\<close>

text \<open>What \<open>useMySQLAuthState\<close> returns: the in-memory credentials \<open>state.creds\<close>, and
  the closures, given by the constants they capture.\<close>

record auth =
  captured :: locals
  creds :: val

text \<open>Lines 51 to 54: the handle, and the options read with their defaults.\<close>

definition captured_constants :: "MySQLConfig \<Rightarrow> nat \<Rightarrow> locals" where
  "captured_constants config h =
     \<lparr> sqlConn = h,
       tableName = or_string (cfg_tableName config) ''auth'',
       retryRequestDelayMs = or_number (cfg_retryRequestDelayMs config) 200,
       maxtRetries = or_number (cfg_maxtRetries config) 10 \<rparr>"

definition useMySQLAuthState :: "utils \<Rightarrow> MySQLConfig \<Rightarrow> world \<Rightarrow> (error + auth) \<times> world" where
  "useMySQLAuthState U config w =
     (case connection config False w of
        (Inl e, w1) \<Rightarrow> (Inl e, w1)
      | (Inr h, w1) \<Rightarrow>
          (case readData (captured_constants config h) ''creds'' w1 of
             (Inl e, w2) \<Rightarrow> (Inl e, w2)
           | (Inr c, w2) \<Rightarrow>
               (Inr \<lparr> captured = captured_constants config h,
                      creds = (if truthy c then c else initAuthCreds U) \<rparr>, w2)))"

text \<open>
  The assignment \<open>data[k] = v\<close> of line 108. An own property takes the value. Otherwise
  the key is looked up along the prototypes:
  \<^item> \<open>Object.prototype\<close> has the accessor \<open>__proto__\<close>, which an assignment does not
    shadow: its setter is called, and makes an object or null the prototype of \<open>data\<close>
    and does nothing for any other value. Its other properties are writable data
    properties, which an assignment shadows by a new own property of \<open>data\<close>.
  \<^item> With the prototype null nothing is found, and the own property is created, also
    for the key \<open>__proto__\<close>.
  \<^item> A decoded object has the properties that were parsed, all writable data
    properties (the key \<open>__proto__\<close> can be one of them), and above them
    \<open>Object.prototype\<close>. A decoded array has its elements and its length, writable data
    properties as those of \<open>Array.prototype\<close>, and above them \<open>Object.prototype\<close>.
  \<^item> A byte sequence decides by \<open>assign_under_bytes\<close>.

  A prototype is an object or null, so the remaining cases of \<open>lookup_assign\<close> do not
  occur.
\<close>

definition define_own :: "string \<Rightarrow> val \<Rightarrow> plain_object \<Rightarrow> plain_object" where
  "define_own k v data = data\<lparr> own := (own data)(k \<mapsto> v) \<rparr>"

fun set_proto :: "val \<Rightarrow> plain_object \<Rightarrow> plain_object" where
  "set_proto VNull data = data\<lparr> proto := NullPrototype \<rparr>"
| "set_proto (VObj fs) data = data\<lparr> proto := ValuePrototype (VObj fs) \<rparr>"
| "set_proto (VArr xs) data = data\<lparr> proto := ValuePrototype (VArr xs) \<rparr>"
| "set_proto (VBuf bs) data = data\<lparr> proto := ValuePrototype (VBuf bs) \<rparr>"
| "set_proto (VBool b) data = data"
| "set_proto (VNum n) data = data"
| "set_proto (VStr s) data = data"

definition assign_under_Object ::
  "string \<Rightarrow> val \<Rightarrow> plain_object \<Rightarrow> error + plain_object"
where
  "assign_under_Object k v data =
     (if k = ''__proto__'' then Inr (set_proto v data) else Inr (define_own k v data))"

fun lookup_assign ::
  "utils \<Rightarrow> prototype \<Rightarrow> string \<Rightarrow> val \<Rightarrow> plain_object \<Rightarrow> error + plain_object"
where
  "lookup_assign U ObjectPrototype k v data = assign_under_Object k v data"
| "lookup_assign U NullPrototype k v data = Inr (define_own k v data)"
| "lookup_assign U (ValuePrototype (VObj fs)) k v data =
     (if k \<in> fst ` set fs then Inr (define_own k v data) else assign_under_Object k v data)"
| "lookup_assign U (ValuePrototype (VArr xs)) k v data = assign_under_Object k v data"
| "lookup_assign U (ValuePrototype (VBuf bs)) k v data = assign_under_bytes U bs k v data"
| "lookup_assign U (ValuePrototype VNull) k v data = Inr (define_own k v data)"
| "lookup_assign U (ValuePrototype (VBool b)) k v data = Inr (define_own k v data)"
| "lookup_assign U (ValuePrototype (VNum n)) k v data = Inr (define_own k v data)"
| "lookup_assign U (ValuePrototype (VStr s)) k v data = Inr (define_own k v data)"

definition assign :: "utils \<Rightarrow> plain_object \<Rightarrow> string \<Rightarrow> val \<Rightarrow> error + plain_object" where
  "assign U data k v =
     (if own data k \<noteq> None then Inr (define_own k v data)
      else lookup_assign U (proto data) k v data)"

text \<open>\<open>state.keys.get(type, ids)\<close>, lines 101 to 111; \<open>data\<close> is the object being filled.\<close>

fun keys_get_from ::
  "utils \<Rightarrow> locals \<Rightarrow> string \<Rightarrow> string list \<Rightarrow> plain_object \<Rightarrow> world
     \<Rightarrow> (error + plain_object) \<times> world"
where
  "keys_get_from U st ty [] data w = (Inr data, w)"
| "keys_get_from U st ty (ident # ids) data w =
     (case readData st (ty @ ''-'' @ ident) w of
        (Inl e, w1) \<Rightarrow> (Inl e, w1)
      | (Inr v, w1) \<Rightarrow>
          (case assign U data ident
                  (if ty = ''app-state-sync-key'' \<and> truthy v then fromObject U v else v) of
             Inl e \<Rightarrow> (Inl e, w1)
           | Inr data1 \<Rightarrow> keys_get_from U st ty ids data1 w1))"

definition keys_get ::
  "utils \<Rightarrow> auth \<Rightarrow> string \<Rightarrow> string list \<Rightarrow> world \<Rightarrow> (error + plain_object) \<times> world"
where
  "keys_get U a ty ids w = keys_get_from U (captured a) ty ids empty_object w"

text \<open>\<open>state.keys.set(data)\<close>, lines 112 to 124: the argument is given by its
  categories and their ids in the order \<open>for ... in\<close> visits them; an absent value is
  \<open>VNull\<close>.\<close>

fun keys_set_ids :: "locals \<Rightarrow> string \<Rightarrow> (string \<times> val) list \<Rightarrow> world \<Rightarrow> (error + unit) \<times> world" where
  "keys_set_ids st category [] w = (Inr (), w)"
| "keys_set_ids st category ((ident, v) # rest) w =
     (case (if truthy v then writeData st (category @ ''-'' @ ident) v w
            else removeData st (category @ ''-'' @ ident) w) of
        (Inl e, w1) \<Rightarrow> (Inl e, w1)
      | (Inr u, w1) \<Rightarrow> keys_set_ids st category rest w1)"

fun keys_set_from ::
  "locals \<Rightarrow> (string \<times> (string \<times> val) list) list \<Rightarrow> world \<Rightarrow> (error + unit) \<times> world"
where
  "keys_set_from st [] w = (Inr (), w)"
| "keys_set_from st ((category, ids) # rest) w =
     (case keys_set_ids st category ids w of
        (Inl e, w1) \<Rightarrow> (Inl e, w1)
      | (Inr u, w1) \<Rightarrow> keys_set_from st rest w1)"

definition keys_set ::
  "auth \<Rightarrow> (string \<times> (string \<times> val) list) list \<Rightarrow> world \<Rightarrow> (error + unit) \<times> world"
where
  "keys_set a data w = keys_set_from (captured a) data w"

definition saveCreds :: "auth \<Rightarrow> world \<Rightarrow> (error + unit) \<times> world" where
  "saveCreds a w = writeData (captured a) ''creds'' (creds a) w"

definition clear :: "auth \<Rightarrow> world \<Rightarrow> (error + unit) \<times> world" where
  "clear a w = clearAll (captured a) w"

definition removeCreds :: "auth \<Rightarrow> world \<Rightarrow> (error + unit) \<times> world" where
  "removeCreds a w = removeAll (captured a) w"

definition dropTable :: "auth \<Rightarrow> world \<Rightarrow> (error + unit) \<times> world" where
  "dropTable a w =
     (case query (captured a) (DropTable (tableName (captured a))) w of (d, w1) \<Rightarrow> (Inr (), w1))"

text \<open>The raw \<open>query\<close> that the facade hands out is the executor itself.\<close>

definition facade_query :: "auth \<Rightarrow> stmt \<Rightarrow> world \<Rightarrow> (error + sqlData) \<times> world" where
  "facade_query a s w = (case query (captured a) s w of (d, w1) \<Rightarrow> (Inr d, w1))"

section \<open>Notions used in the statements\<close>

text \<open>The world after one failed attempt of the executor and the wait that follows it.\<close>

definition retry_step :: "locals \<Rightarrow> stmt \<Rightarrow> world \<Rightarrow> world" where
  "retry_step st s w = sleep (retryRequestDelayMs st) (snd (conn_query (sqlConn st) s w))"



text \<open>
  The store answers within the retry budget: from any moment on, one of the next
  \<open>maxtRetries\<close> calls of the driver is not rejected. Transient failures, fewer in a row
  than the budget, are allowed.
\<close>

definition responsive :: "locals \<Rightarrow> world \<Rightarrow> bool" where
  "responsive st w = (\<forall>t. \<exists>k. int k < maxtRetries st \<and> \<not> fails w (t + k))"

text \<open>The rest of a text after a number: empty, or not starting with a digit.\<close>

definition delimited :: "string \<Rightarrow> bool" where
  "delimited r = (case r of [] \<Rightarrow> True | c # cs \<Rightarrow> \<not> is_digit c)"

text \<open>Opening one store after another, each with its own configuration.\<close>

fun open_all :: "utils \<Rightarrow> MySQLConfig list \<Rightarrow> world \<Rightarrow> (error + auth) list \<times> world" where
  "open_all U [] w = ([], w)"
| "open_all U (config # configs) w =
     (case useMySQLAuthState U config w of
        (r, w1) \<Rightarrow> (case open_all U configs w1 of (rs, w2) \<Rightarrow> (r # rs, w2)))"

text \<open>The rows of a table, none while the table does not exist.\<close>

definition rows_of :: "database \<Rightarrow> string \<Rightarrow> table" where
  "rows_of db t = (case db t of None \<Rightarrow> [] | Some rows \<Rightarrow> rows)"

subsection \<open>Concrete inputs\<close>

definition U0 :: utils where
  "U0 = \<lparr> fresh_bundle = [(''registrationId'', VNum 7)], fromObject = (\<lambda>v. v),
          assign_under_bytes = (\<lambda>bs k v data. Inr (define_own k v data)) \<rparr>"

definition config0 :: MySQLConfig where
  "config0 =
     \<lparr> cfg_database = None, cfg_host = None, cfg_port = None, cfg_user = None,
       cfg_password = None, cfg_password1 = None, cfg_password2 = None, cfg_password3 = None,
       cfg_ssl = None, cfg_localAddress = None, cfg_socketPath = None, cfg_insecureAuth = None,
       cfg_isServer = None, cfg_tableName = None, cfg_retryRequestDelayMs = None,
       cfg_maxtRetries = None \<rparr>"

text \<open>A fresh process and an empty database whose driver never fails.\<close>

definition world0 :: world where
  "world0 =
     \<lparr> conn = None, next_handle = 0, handle_options = (\<lambda>h. None), closing = (\<lambda>h. False),
       tables = (\<lambda>t. None), other_sql = (\<lambda>q vs db. None), typeCast = True, fails = (\<lambda>n. False), clock = 0, trace = [] \<rparr>"

text \<open>The same database with the table \<open>auth\<close> in place: empty, and holding a credentials
  row, a row whose value is SQL NULL and a key record with a byte sequence.\<close>

definition world1 :: world where
  "world1 = world0\<lparr> tables := (\<lambda>t. if t = ''auth'' then Some [] else None) \<rparr>"

definition world2 :: world where
  "world2 =
     world0\<lparr> tables := (\<lambda>t. if t = ''auth''
       then Some [(''creds'', Some (JObj [(''registrationId'', JNum 7)])), (''session-abc'', None),
                  (''pre-key-1'', Some (JObj [(''public'', marker [9])]))]
       else None) \<rparr>"

text \<open>Values: two with nested byte sequences and plain data, and an object that has the
  shape of the marker without being a byte sequence.\<close>

definition value0 :: val where
  "value0 =
     VObj [(''keyPair'', VObj [(''private'', VBuf [1, 2, 255]), (''public'', VBuf [])]),
           (''counters'', VArr [VNum 3, VNull, VStr ''x''])]"

definition value1 :: val where
  "value1 = VObj [(''registrationId'', VNum 7)]"

definition lookalike :: val where
  "lookalike = VObj [(''type'', VStr ''Buffer''), (''data'', VArr [VNum 1, VNum 2])]"

text \<open>The database is unreachable: the driver rejects every call.\<close>

definition world_down :: world where
  "world_down = world2\<lparr> fails := (\<lambda>n. True) \<rparr>"

text \<open>Two configurations that name different servers.\<close>

definition configA :: MySQLConfig where
  "configA = config0\<lparr> cfg_host := Some ''db-a.example'' \<rparr>"

definition configB :: MySQLConfig where
  "configB = config0\<lparr> cfg_host := Some ''db-b.example'' \<rparr>"

text \<open>The closures' constants under the default configuration, on the handle 0.\<close>

definition locals0 :: locals where
  "locals0 = \<lparr> sqlConn = 0, tableName = ''auth'', retryRequestDelayMs = 200, maxtRetries = 10 \<rparr>"

text \<open>A store as \<open>useMySQLAuthState\<close> returns it under the default configuration.\<close>

definition auth0 :: auth where
  "auth0 = \<lparr> captured = locals0, creds = value1 \<rparr>"




section \<open>\<open>JSON.parse\<close> reads what \<open>JSON.stringify\<close> writes\<close>

lemma raw_text_cases [simp]:
  "raw_text (JStr s) = s"
  "raw_text (JNum n) = show_int n"
  "raw_text (JBool b) = (if b then ''true'' else ''false'')"
  "typeof_object v \<Longrightarrow> raw_text v = JSON_stringify v"
  by (simp_all add: raw_text_def)

lemma is_digit_digit_char: "d < 10 \<Longrightarrow> is_digit (digit_char d)"
  by (simp add: is_digit_def digit_char_def)

lemma digit_val_digit_char: "d < 10 \<Longrightarrow> digit_val (digit_char d) = d"
  by (simp add: digit_val_def digit_char_def)

lemma show_nat_digits: "\<forall>c \<in> set (show_nat n). is_digit c"
proof (induction n rule: show_nat.induct)
  case (1 n)
  show ?case
  proof (cases "n < 10")
    case True
    then show ?thesis by (subst show_nat.simps) (simp add: is_digit_digit_char)
  next
    case False
    with 1 show ?thesis by (subst show_nat.simps) (simp add: is_digit_digit_char)
  qed
qed

lemma show_nat_nonempty: "show_nat n \<noteq> []"
  by (subst show_nat.simps) simp

lemma show_nat_value: "foldl (\<lambda>a c. 10 * a + digit_val c) 0 (show_nat n) = n"
proof (induction n rule: show_nat.induct)
  case (1 n)
  show ?case
  proof (cases "n < 10")
    case True
    then show ?thesis by (subst show_nat.simps) (simp add: digit_val_digit_char)
  next
    case False
    with 1 show ?thesis by (subst show_nat.simps) (simp add: digit_val_digit_char)
  qed
qed

lemma parse_nat_show_nat:
  assumes "delimited r"
  shows "parse_nat (show_nat n @ r) = Some (n, r)"
proof -
  have tw: "takeWhile is_digit (show_nat n @ r) = show_nat n"
    using assms show_nat_digits[of n]
    by (cases r) (simp_all add: delimited_def takeWhile_append2 takeWhile_eq_all_conv)
  have dw: "dropWhile is_digit (show_nat n @ r) = r"
    using assms show_nat_digits[of n]
    by (cases r) (simp_all add: delimited_def dropWhile_append2)
  show ?thesis
    by (simp add: parse_nat_def tw dw show_nat_nonempty show_nat_value)
qed

lemma parse_string_escape: "parse_string (escape s @ CHR 0x22 # r) = Some (s, r)"
proof (induction s)
  case Nil
  show ?case by (cases r) simp_all
next
  case (Cons c s)
  obtain d ds where e: "escape s @ CHR 0x22 # r = d # ds"
    by (cases "escape s @ CHR 0x22 # r") auto
  show ?case
  proof (cases "c = CHR 0x22 \<or> c = CHR 0x5C")
    case True
    then show ?thesis using Cons by auto
  next
    case False
    then show ?thesis using Cons e by auto
  qed
qed


lemma show_nat_head: "\<exists>c cs. show_nat n = c # cs \<and> is_digit c"
  using show_nat_digits[of n] show_nat_nonempty[of n]
  by (cases "show_nat n") auto

lemma parse_number_show_int:
  assumes "delimited r"
  shows "parse_number (show_int i @ r) = Some (JNum i, r)"
proof (cases "i < 0")
  case True
  then show ?thesis
    by (simp add: parse_number_def show_int_def parse_nat_show_nat[OF assms])
next
  case False
  obtain c cs where h: "show_nat (nat i) = c # cs" "is_digit c"
    using show_nat_head by blast
  then have "c \<noteq> CHR ''-''"
    by (auto simp: is_digit_def)
  moreover have "parse_nat ((c # cs) @ r) = Some (nat i, r)"
    using parse_nat_show_nat[OF assms, of "nat i"] h by simp
  ultimately show ?thesis
    using False h by (simp add: parse_number_def show_int_def)
qed

lemma show_int_head:
  "\<exists>c cs. show_int i = c # cs \<and> c \<noteq> CHR ''n'' \<and> c \<noteq> CHR ''t'' \<and> c \<noteq> CHR ''f''
      \<and> c \<noteq> CHR 0x22 \<and> c \<noteq> CHR ''['' \<and> c \<noteq> CHR ''{''"
proof (cases "i < 0")
  case True
  then show ?thesis by (simp add: show_int_def)
next
  case False
  obtain c cs where h: "show_nat (nat i) = c # cs" "is_digit c"
    using show_nat_head by blast
  with False show ?thesis by (auto simp: show_int_def is_digit_def)
qed

lemma parse_value_number:
  assumes "delimited r"
  shows "parse_value (Suc n) (show_int i @ r) = Some (JNum i, r)"
proof -
  obtain c cs where h: "show_int i = c # cs" "c \<noteq> CHR ''n''" "c \<noteq> CHR ''t''" "c \<noteq> CHR ''f''"
      "c \<noteq> CHR 0x22" "c \<noteq> CHR ''[''" "c \<noteq> CHR ''{''"
    using show_int_head by blast
  have "parse_value (Suc n) ((c # cs) @ r) = parse_number ((c # cs) @ r)"
    using h by simp
  then show ?thesis
    using parse_number_show_int[OF assms, of i] h by simp
qed

lemma stringify_head:
  "\<exists>c cs. JSON_stringify j = c # cs \<and> c \<noteq> CHR '']'' \<and> c \<noteq> CHR ''}''"
proof (cases j)
  case (JNum i)
  obtain c cs where h: "show_nat (nat i) = c # cs" "is_digit c"
    using show_nat_head by blast
  obtain c' cs' where h': "show_nat (nat (- i)) = c' # cs'" "is_digit c'"
    using show_nat_head by blast
  from JNum h h' show ?thesis by (auto simp: show_int_def is_digit_def)
next
  case (JArr xs)
  then show ?thesis by (cases xs) auto
next
  case (JObj ms)
  then show ?thesis by (cases ms) auto
qed (auto simp: quote_def)

lemma delimited_elems: "delimited (stringify_elems xs @ r)"
  by (cases xs) (auto simp: delimited_def is_digit_def)

lemma delimited_members: "delimited (stringify_members ms @ r)"
  by (cases ms) (auto simp: delimited_def is_digit_def)

lemma parse_roundtrip:
  "\<forall>n r. length (JSON_stringify j) \<le> n \<longrightarrow> delimited r
         \<longrightarrow> parse_value n (JSON_stringify j @ r) = Some (j, r)"
  "\<forall>n r. length (stringify_elems xs) \<le> n
         \<longrightarrow> parse_elems n (stringify_elems xs @ r) = Some (xs, r)"
  "\<forall>n r. length (stringify_members ms) \<le> n
         \<longrightarrow> parse_members n (stringify_members ms @ r) = Some (ms, r)"
proof (induction j and xs and ms rule: JSON_stringify_stringify_elems_stringify_members.induct)
  case 1
  show ?case
  proof (intro allI impI)
    fix n r assume "length (JSON_stringify JNull) \<le> n" "delimited r"
    then obtain m where "n = Suc m" by (cases n) auto
    then show "parse_value n (JSON_stringify JNull @ r) = Some (JNull, r)" by simp
  qed
next
  case (2 b)
  show ?case
  proof (intro allI impI)
    fix n r assume "length (JSON_stringify (JBool b)) \<le> n" "delimited r"
    then obtain m where "n = Suc m" by (cases n) (auto split: if_splits)
    then show "parse_value n (JSON_stringify (JBool b) @ r) = Some (JBool b, r)" by simp
  qed
next
  case (3 i)
  show ?case
  proof (intro allI impI)
    fix n r assume a: "length (JSON_stringify (JNum i)) \<le> n" "delimited r"
    obtain c cs where "show_int i = c # cs" using show_int_head by blast
    with a obtain m where "n = Suc m" by (cases n) auto
    then show "parse_value n (JSON_stringify (JNum i) @ r) = Some (JNum i, r)"
      using parse_value_number[OF a(2)] by simp
  qed
next
  case (4 s)
  show ?case
  proof (intro allI impI)
    fix n r assume a: "length (JSON_stringify (JStr s)) \<le> n" "delimited r"
    then obtain m where "n = Suc m" by (cases n) (auto simp: quote_def)
    then show "parse_value n (JSON_stringify (JStr s) @ r) = Some (JStr s, r)"
      by (simp add: quote_def parse_string_escape)
  qed
next
  case 5
  show ?case
  proof (intro allI impI)
    fix n r assume "length (JSON_stringify (JArr [])) \<le> n" "delimited r"
    then obtain m where "n = Suc m" by (cases n) auto
    then show "parse_value n (JSON_stringify (JArr []) @ r) = Some (JArr [], r)" by simp
  qed
next
  case (6 x xs)
  show ?case
  proof (intro allI impI)
    fix n r assume a: "length (JSON_stringify (JArr (x # xs))) \<le> n" "delimited r"
    then obtain m where n: "n = Suc m" by (cases n) auto
    obtain c cs where h: "JSON_stringify x = c # cs" "c \<noteq> CHR '']''"
      using stringify_head by blast
    have lx: "length (JSON_stringify x) \<le> m" and lxs: "length (stringify_elems xs) \<le> m"
      using a n by simp_all
    have px: "parse_value m (JSON_stringify x @ stringify_elems xs @ r)
               = Some (x, stringify_elems xs @ r)"
      using 6(1) lx delimited_elems by blast
    have pxs: "parse_elems m (stringify_elems xs @ r) = Some (xs, r)"
      using 6(2) lxs by blast
    have "strip_prefix '']'' (JSON_stringify x @ stringify_elems xs @ r) = None"
      using h by simp
    then show "parse_value n (JSON_stringify (JArr (x # xs)) @ r) = Some (JArr (x # xs), r)"
      using n px pxs by simp
  qed
next
  case 7
  show ?case
  proof (intro allI impI)
    fix n r assume "length (JSON_stringify (JObj [])) \<le> n" "delimited r"
    then obtain m where "n = Suc m" by (cases n) auto
    then show "parse_value n (JSON_stringify (JObj []) @ r) = Some (JObj [], r)" by simp
  qed
next
  case (8 k x ms)
  show ?case
  proof (intro allI impI)
    fix n r assume a: "length (JSON_stringify (JObj ((k, x) # ms))) \<le> n" "delimited r"
    then obtain m where n: "n = Suc m" by (cases n) auto
    have lx: "length (JSON_stringify x) \<le> m" and lms: "length (stringify_members ms) \<le> m"
      using a n by simp_all
    have px: "parse_value m (JSON_stringify x @ stringify_members ms @ r)
               = Some (x, stringify_members ms @ r)"
      using 8(1) lx delimited_members by blast
    have pms: "parse_members m (stringify_members ms @ r) = Some (ms, r)"
      using 8(2) lms by blast
    show "parse_value n (JSON_stringify (JObj ((k, x) # ms)) @ r) = Some (JObj ((k, x) # ms), r)"
      using n px pms by (simp add: quote_def parse_string_escape)
  qed
next
  case 9
  show ?case
  proof (intro allI impI)
    fix n r assume "length (stringify_elems []) \<le> n"
    then obtain m where "n = Suc m" by (cases n) auto
    then show "parse_elems n (stringify_elems [] @ r) = Some ([], r)" by simp
  qed
next
  case (10 x xs)
  show ?case
  proof (intro allI impI)
    fix n r assume a: "length (stringify_elems (x # xs)) \<le> n"
    then obtain m where n: "n = Suc m" by (cases n) auto
    have lx: "length (JSON_stringify x) \<le> m" and lxs: "length (stringify_elems xs) \<le> m"
      using a n by simp_all
    have px: "parse_value m (JSON_stringify x @ stringify_elems xs @ r)
               = Some (x, stringify_elems xs @ r)"
      using 10(1) lx delimited_elems by blast
    have pxs: "parse_elems m (stringify_elems xs @ r) = Some (xs, r)"
      using 10(2) lxs by blast
    show "parse_elems n (stringify_elems (x # xs) @ r) = Some (x # xs, r)"
      using n px pxs by simp
  qed
next
  case 11
  show ?case
  proof (intro allI impI)
    fix n r assume "length (stringify_members []) \<le> n"
    then obtain m where "n = Suc m" by (cases n) auto
    then show "parse_members n (stringify_members [] @ r) = Some ([], r)" by simp
  qed
next
  case (12 k x ms)
  show ?case
  proof (intro allI impI)
    fix n r assume a: "length (stringify_members ((k, x) # ms)) \<le> n"
    then obtain m where n: "n = Suc m" by (cases n) auto
    have lx: "length (JSON_stringify x) \<le> m" and lms: "length (stringify_members ms) \<le> m"
      using a n by simp_all
    have px: "parse_value m (JSON_stringify x @ stringify_members ms @ r)
               = Some (x, stringify_members ms @ r)"
      using 12(1) lx delimited_members by blast
    have pms: "parse_members m (stringify_members ms @ r) = Some (ms, r)"
      using 12(2) lms by blast
    show "parse_members n (stringify_members ((k, x) # ms) @ r) = Some ((k, x) # ms, r)"
      using n px pms by (simp add: quote_def parse_string_escape)
  qed
qed

lemma JSON_parse_stringify: "JSON_parse (JSON_stringify j) = Some j"
proof -
  have "delimited []" by (simp add: delimited_def)
  with parse_roundtrip(1)[of j]
  have "parse_value (Suc (length (JSON_stringify j))) (JSON_stringify j @ []) = Some (j, [])"
    by (metis le_SucI order_refl)
  then show ?thesis by (simp add: JSON_parse_def)
qed


section \<open>The retrying executor\<close>

lemma trace_conn_query: "trace (snd (conn_query h s w)) = trace w @ [Query h s]"
  by (simp add: conn_query_def run_statement_def driver_call_def split: option.splits prod.splits)

lemma trace_retry_step:
  "trace (retry_step st s w) = trace w @ [Query (sqlConn st) s, Sleep (retryRequestDelayMs st)]"
  by (simp add: retry_step_def sleep_def trace_conn_query)

lemma query_from_char:
  "\<exists>k. int k \<le> max (maxtRetries st - x) 0
     \<and> (\<forall>j<k. isl (fst (conn_query (sqlConn st) s ((retry_step st s ^^ j) w))))
     \<and> (if int k < maxtRetries st - x
         then conn_query (sqlConn st) s ((retry_step st s ^^ k) w)
                = (Inr (fst (query_from st s x w)), snd (query_from st s x w))
         else query_from st s x w = (Rows [], (retry_step st s ^^ k) w))"
proof (induction st s x w rule: query_from.induct)
  case (1 st s x w)
  show ?case
  proof (cases "x < maxtRetries st")
    case False
    then have "query_from st s x w = (Rows [], w)"
      by (simp add: query_from.simps)
    with False show ?thesis
      by (intro exI[of _ 0]) simp
  next
    case True
    obtain r w1 where cq: "conn_query (sqlConn st) s w = (r, w1)"
      by (cases "conn_query (sqlConn st) s w")
    show ?thesis
    proof (cases r)
      case (Inr rows)
      with True cq have "query_from st s x w = (rows, w1)"
        by (simp add: query_from.simps)
      with True cq Inr show ?thesis
        by (intro exI[of _ 0]) simp
    next
      case (Inl e)
      let ?w' = "sleep (retryRequestDelayMs st) w1"
      have step: "retry_step st s w = ?w'"
        by (simp add: retry_step_def cq)
      have unfold: "query_from st s x w = query_from st s (x + 1) ?w'"
        using True cq Inl by (subst query_from.simps) simp
      from "1.IH"[OF True cq[symmetric] Inl]
      obtain k where k: "int k \<le> max (maxtRetries st - (x + 1)) 0"
        and fl: "\<forall>j<k. isl (fst (conn_query (sqlConn st) s ((retry_step st s ^^ j) ?w')))"
        and res: "if int k < maxtRetries st - (x + 1)
           then conn_query (sqlConn st) s ((retry_step st s ^^ k) ?w')
                = (Inr (fst (query_from st s (x + 1) ?w')), snd (query_from st s (x + 1) ?w'))
           else query_from st s (x + 1) ?w' = (Rows [], (retry_step st s ^^ k) ?w')"
        by blast
      have shift: "(retry_step st s ^^ Suc j) w = (retry_step st s ^^ j) ?w'" for j
        by (simp only: funpow_Suc_right o_apply step)
      have fl': "\<forall>j<Suc k. isl (fst (conn_query (sqlConn st) s ((retry_step st s ^^ j) w)))"
      proof (intro allI impI)
        fix j assume "j < Suc k"
        show "isl (fst (conn_query (sqlConn st) s ((retry_step st s ^^ j) w)))"
        proof (cases j)
          case 0
          then show ?thesis using cq Inl by simp
        next
          case (Suc i)
          with \<open>j < Suc k\<close> have "i < k" by simp
          with fl have "isl (fst (conn_query (sqlConn st) s ((retry_step st s ^^ i) ?w')))"
            by blast
          then show ?thesis
            by (simp only: Suc shift)
        qed
      qed
      have res': "if int (Suc k) < maxtRetries st - x
           then conn_query (sqlConn st) s ((retry_step st s ^^ Suc k) w)
                = (Inr (fst (query_from st s x w)), snd (query_from st s x w))
           else query_from st s x w = (Rows [], (retry_step st s ^^ Suc k) w)"
        using res by (simp only: shift unfold) (simp split: if_splits)
      have k': "int (Suc k) \<le> max (maxtRetries st - x) 0"
        using k True by simp
      from k' fl' res' show ?thesis
        by (intro exI[of _ "Suc k"] conjI)
    qed
  qed
qed


lemma trace_retry_steps:
  "trace ((retry_step st s ^^ k) w)
     = trace w @ concat (replicate k [Query (sqlConn st) s, Sleep (retryRequestDelayMs st)])"
proof (induction k arbitrary: w)
  case 0
  show ?case by simp
next
  case (Suc k)
  have "(retry_step st s ^^ Suc k) w = (retry_step st s ^^ k) (retry_step st s w)"
    by (simp only: funpow_Suc_right o_apply)
  then show ?case
    by (simp add: Suc trace_retry_step)
qed






lemma open_world0:
  "fst (useMySQLAuthState U0 config0 world0)
     = Inr auth0"
  by (simp add: useMySQLAuthState_def connection_def createConnection_def conn_execute_def
      run_statement_def driver_call_def newConnection_def ended_def U0_def config0_def
      world0_def locals0_def connection_options_def or_string_def or_number_def or_false_def
      readData_def decode_value_def query_def query_from.simps conn_query_def initAuthCreds_def
      captured_constants_def auth0_def value1_def Let_def)




subsection \<open>What the executor leaves unchanged\<close>

lemma conn_query_frame:
  "conn (snd (conn_query h s w)) = conn w"
  "closing (snd (conn_query h s w)) = closing w"
  "next_handle (snd (conn_query h s w)) = next_handle w"
  "handle_options (snd (conn_query h s w)) = handle_options w"
  "typeCast (snd (conn_query h s w)) = typeCast w"
  "other_sql (snd (conn_query h s w)) = other_sql w"
  "fails (snd (conn_query h s w)) = fails w"
  "clock (snd (conn_query h s w)) = Suc (clock w)"
  by (simp_all add: conn_query_def run_statement_def driver_call_def split: option.splits prod.splits)

lemma retry_step_frame:
  "conn (retry_step st s w) = conn w"
  "closing (retry_step st s w) = closing w"
  "next_handle (retry_step st s w) = next_handle w"
  "handle_options (retry_step st s w) = handle_options w"
  "typeCast (retry_step st s w) = typeCast w"
  "other_sql (retry_step st s w) = other_sql w"
  "fails (retry_step st s w) = fails w"
  "clock (retry_step st s w) = Suc (clock w)"
  by (simp_all add: retry_step_def sleep_def conn_query_frame)

lemma retry_steps_frame:
  "conn ((retry_step st s ^^ k) w) = conn w"
  "closing ((retry_step st s ^^ k) w) = closing w"
  "next_handle ((retry_step st s ^^ k) w) = next_handle w"
  "handle_options ((retry_step st s ^^ k) w) = handle_options w"
  "typeCast ((retry_step st s ^^ k) w) = typeCast w"
  "other_sql ((retry_step st s ^^ k) w) = other_sql w"
  "fails ((retry_step st s ^^ k) w) = fails w"
  "clock ((retry_step st s ^^ k) w) = clock w + k"
  by (induction k) (simp_all add: retry_step_frame)

lemma query_outcome:
  "\<exists>k. int k \<le> max (maxtRetries st) 0
     \<and> (\<forall>j<k. isl (fst (conn_query (sqlConn st) s ((retry_step st s ^^ j) w))))
     \<and> (if int k < maxtRetries st
         then conn_query (sqlConn st) s ((retry_step st s ^^ k) w)
                = (Inr (fst (query st s w)), snd (query st s w))
         else query st s w = (Rows [], (retry_step st s ^^ k) w))"
proof -
  have z: "maxtRetries st - 0 = maxtRetries st" by simp
  from query_from_char[where st=st and x=0 and s=s and w=w] show ?thesis
    unfolding query_def z .
qed

lemma query_frame:
  "conn (snd (query st s w)) = conn w"
  "closing (snd (query st s w)) = closing w"
  "next_handle (snd (query st s w)) = next_handle w"
  "handle_options (snd (query st s w)) = handle_options w"
  "typeCast (snd (query st s w)) = typeCast w"
  "other_sql (snd (query st s w)) = other_sql w"
  "fails (snd (query st s w)) = fails w"
proof -
  obtain k where
    res: "if int k < maxtRetries st
         then conn_query (sqlConn st) s ((retry_step st s ^^ k) w)
                = (Inr (fst (query st s w)), snd (query st s w))
         else query st s w = (Rows [], (retry_step st s ^^ k) w)"
    using query_outcome by blast
  have eq: "snd (query st s w) = (if int k < maxtRetries st
       then snd (conn_query (sqlConn st) s ((retry_step st s ^^ k) w))
       else (retry_step st s ^^ k) w)"
    using res by (auto split: if_splits)
  show "conn (snd (query st s w)) = conn w"
    "closing (snd (query st s w)) = closing w"
    "next_handle (snd (query st s w)) = next_handle w"
    "handle_options (snd (query st s w)) = handle_options w"
    "typeCast (snd (query st s w)) = typeCast w"
  "other_sql (snd (query st s w)) = other_sql w"
    "fails (snd (query st s w)) = fails w"
    by (simp_all add: eq conn_query_frame retry_steps_frame)
qed

lemma readData_eq:
  "readData st i w
     = (decode_value (first_value (fst (query st (Select (tableName st) i) w))),
        snd (query st (Select (tableName st) i) w))"
  by (simp add: readData_def case_prod_beta)

lemma readData_frame:
  "conn (snd (readData st i w)) = conn w"
  "closing (snd (readData st i w)) = closing w"
  "next_handle (snd (readData st i w)) = next_handle w"
  "handle_options (snd (readData st i w)) = handle_options w"
  "typeCast (snd (readData st i w)) = typeCast w"
  "other_sql (snd (readData st i w)) = other_sql w"
  "fails (snd (readData st i w)) = fails w"
  by (simp_all add: readData_eq query_frame)


lemma query_events:
  "set (drop (length (trace w)) (trace (snd (query st s w))))
     \<subseteq> {Query (sqlConn st) s, Sleep (retryRequestDelayMs st)}"
proof -
  obtain k where
    res: "if int k < maxtRetries st
         then conn_query (sqlConn st) s ((retry_step st s ^^ k) w)
                = (Inr (fst (query st s w)), snd (query st s w))
         else query st s w = (Rows [], (retry_step st s ^^ k) w)"
    using query_outcome by blast
  have eq: "snd (query st s w) = (if int k < maxtRetries st
       then snd (conn_query (sqlConn st) s ((retry_step st s ^^ k) w))
       else (retry_step st s ^^ k) w)"
    using res by (auto split: if_splits)
  have "trace (snd (query st s w)) = trace w
        @ concat (replicate k [Query (sqlConn st) s, Sleep (retryRequestDelayMs st)])
        @ (if int k < maxtRetries st then [Query (sqlConn st) s] else [])"
    by (simp add: eq trace_conn_query trace_retry_steps)
  then show ?thesis by auto
qed


section \<open>The connection manager\<close>

lemma connection_trace:
  "trace (snd (connection config force w))
     = trace w
       @ (if newConnection w \<or> ended w \<or> force
          then CreateConnection (connection_options config)
               # (if newConnection w \<and> \<not> fails w (clock w)
                  then [Execute (next_handle w)
                          (CreateTable (or_string (cfg_tableName config) ''auth''))]
                  else [])
          else [])"
  by (auto simp: connection_def createConnection_def conn_execute_def run_statement_def
      driver_call_def newConnection_def ended_def Let_def split: option.splits prod.splits sum.splits)

lemma connection_reuse:
  assumes "\<not> (newConnection w \<or> ended w \<or> force)"
  shows "\<exists>h. conn w = Some h \<and> connection config force w = (Inr h, w)"
  using assms by (auto simp: connection_def newConnection_def)

lemma connection_create:
  assumes "newConnection w \<or> ended w \<or> force"
  shows "if fails w (clock w)
         then fst (connection config force w) = Inl ConnectError
              \<and> conn (snd (connection config force w)) = conn w
              \<and> next_handle (snd (connection config force w)) = next_handle w
         else conn (snd (connection config force w)) = Some (next_handle w)
              \<and> handle_options (snd (connection config force w)) (next_handle w)
                  = Some (connection_options config)
              \<and> next_handle (snd (connection config force w)) = Suc (next_handle w)"
  using assms
  by (auto simp: connection_def createConnection_def conn_execute_def run_statement_def
      driver_call_def Let_def split: option.splits prod.splits sum.splits)



lemma conn_execute_frame:
  "conn (snd (conn_execute h s w)) = conn w"
  "closing (snd (conn_execute h s w)) = closing w"
  "next_handle (snd (conn_execute h s w)) = next_handle w"
  "handle_options (snd (conn_execute h s w)) = handle_options w"
  by (simp_all add: conn_execute_def run_statement_def driver_call_def split: option.splits prod.splits)

lemma connection_new_rejected:
  assumes "newConnection w \<or> ended w \<or> force" and "fails w (clock w)"
  shows "connection config force w
           = (Inl ConnectError, driver_call (CreateConnection (connection_options config)) w)"
  using assms by (simp add: connection_def createConnection_def Let_def)

lemma connection_new_created:
  assumes "newConnection w \<or> ended w \<or> force" and "\<not> fails w (clock w)"
  shows "conn (snd (connection config force w)) = Some (next_handle w)"
    and "next_handle (snd (connection config force w)) = Suc (next_handle w)"
    and "handle_options (snd (connection config force w))
           = (handle_options w)(next_handle w := Some (connection_options config))"
    and "closing (snd (connection config force w)) = (closing w)(next_handle w := False)"
    and "fst (connection config force w) = Inr h \<Longrightarrow> h = next_handle w"
proof -
  let ?w1 = "(driver_call (CreateConnection (connection_options config)) w)
               \<lparr> next_handle := Suc (next_handle w),
                 handle_options := (handle_options w)(next_handle w := Some (connection_options config)),
                 closing := (closing w)(next_handle w := False) \<rparr>"
  let ?w2 = "?w1\<lparr> conn := Some (next_handle w) \<rparr>"
  let ?ex = "conn_execute (next_handle w) (CreateTable (or_string (cfg_tableName config) ''auth'')) ?w2"
  have cc: "createConnection (connection_options config) w = (Inr (next_handle w), ?w1)"
    using assms(2) by (simp add: createConnection_def Let_def)
  have eq: "connection config force w
      = (if newConnection w
         then (case ?ex of (Inl e, w3) \<Rightarrow> (Inl e, w3) | (Inr d, w3) \<Rightarrow> (Inr (next_handle w), w3))
         else (Inr (next_handle w), ?w2))"
    using assms(1) by (simp add: connection_def cc Let_def)
  have sn: "snd (connection config force w) = (if newConnection w then snd ?ex else ?w2)"
    by (simp add: eq split: prod.splits sum.splits)
  show "conn (snd (connection config force w)) = Some (next_handle w)"
    and "next_handle (snd (connection config force w)) = Suc (next_handle w)"
    and "handle_options (snd (connection config force w))
           = (handle_options w)(next_handle w := Some (connection_options config))"
    and "closing (snd (connection config force w)) = (closing w)(next_handle w := False)"
    by (simp_all add: sn conn_execute_frame driver_call_def)
  show "fst (connection config force w) = Inr h \<Longrightarrow> h = next_handle w"
    by (auto simp: eq split: prod.splits sum.splits if_splits)
qed

text \<open>
  Claim C8. \<open>connection\<close> calls \<open>createConnection\<close>, with the options built from the
  configuration, exactly when there is no handle yet (\<open>newConnection\<close>), the existing handle
  reports itself closed (\<open>ended\<close>) or the caller forces it; otherwise it calls nothing and
  returns the existing handle. The \<open>CREATE TABLE IF NOT EXISTS\<close> statement is executed
  only when there was no handle before, directly after that handle is created; a handle
  created because of closure or force is followed by no statement.
\<close>

theorem connection_lifecycle:
  "trace (snd (connection config force w))
     = trace w
       @ (if newConnection w \<or> ended w \<or> force
          then CreateConnection (connection_options config)
               # (if newConnection w \<and> \<not> fails w (clock w)
                  then [Execute (next_handle w)
                          (CreateTable (or_string (cfg_tableName config) ''auth''))]
                  else [])
          else [])
   \<and> (if newConnection w \<or> ended w \<or> force
      then (if fails w (clock w)
            then connection config force w
                   = (Inl ConnectError,
                      driver_call (CreateConnection (connection_options config)) w)
            else conn (snd (connection config force w)) = Some (next_handle w)
               \<and> next_handle (snd (connection config force w)) = Suc (next_handle w)
               \<and> handle_options (snd (connection config force w)) (next_handle w)
                   = Some (connection_options config))
      else (\<exists>h. conn w = Some h \<and> connection config force w = (Inr h, w)))"
proof (cases "newConnection w \<or> ended w \<or> force")
  case False
  with connection_trace[of config force w] connection_reuse[OF False, of config] show ?thesis
    by simp
next
  case True
  show ?thesis
  proof (cases "fails w (clock w)")
    case rejected: True
    with True connection_trace[of config force w]
      connection_new_rejected[OF True rejected, of config]
    show ?thesis by simp
  next
    case created: False
    with True connection_trace[of config force w]
      connection_new_created(1,2,3)[OF True created, of config]
    show ?thesis by simp
  qed
qed

lemmas eval_defs = useMySQLAuthState_def connection_def createConnection_def conn_execute_def
  run_statement_def driver_call_def newConnection_def ended_def U0_def config0_def
  world0_def locals0_def connection_options_def or_string_def or_number_def or_false_def
  readData_def decode_value_def query_def query_from.simps conn_query_def initAuthCreds_def
  captured_constants_def Let_def sleep_def configA_def configB_def auth0_def value1_def

text \<open>The first call creates the handle 0 and the table; after the driver has marked
  that handle as closing, the next call creates the handle 1 and executes nothing.\<close>

theorem connection_lifecycle_witness:
  "trace (snd (connection configA False world0))
     = [CreateConnection (connection_options configA), Execute 0 (CreateTable ''auth'')]
   \<and> trace (snd (connection configA False
                   ((snd (connection configA False world0))\<lparr> closing := (\<lambda>h. h = 0) \<rparr>)))
     = [CreateConnection (connection_options configA), Execute 0 (CreateTable ''auth''),
        CreateConnection (connection_options configA)]"
  using connection_lifecycle[of configA False world0]
    connection_lifecycle[of configA False
      "(snd (connection configA False world0))\<lparr> closing := (\<lambda>h. h = 0) \<rparr>"]
  by (simp add: eval_defs)

subsection \<open>One handle for the whole process\<close>

lemma open_failed:
  assumes "connection config False w = (Inl e, w1)"
  shows "useMySQLAuthState U config w = (Inl e, w1)"
  using assms by (simp add: useMySQLAuthState_def)

lemma open_connected:
  assumes "connection config False w = (Inr h, w1)"
  shows "snd (useMySQLAuthState U config w)
           = snd (readData (captured_constants config h) ''creds'' w1)"
    and "fst (useMySQLAuthState U config w)
           = (case fst (readData (captured_constants config h) ''creds'' w1) of
                Inl e \<Rightarrow> Inl e
              | Inr c \<Rightarrow> Inr \<lparr> captured = captured_constants config h,
                                creds = (if truthy c then c else initAuthCreds U) \<rparr>)"
  using assms by (simp_all add: useMySQLAuthState_def split: prod.splits sum.splits)

lemma open_frame_existing:
  assumes "conn w = Some h" and "\<not> closing w h"
  shows "conn (snd (useMySQLAuthState U config w)) = Some h"
    and "closing (snd (useMySQLAuthState U config w)) = closing w"
    and "next_handle (snd (useMySQLAuthState U config w)) = next_handle w"
    and "handle_options (snd (useMySQLAuthState U config w)) = handle_options w"
    and "fst (useMySQLAuthState U config w) = Inr a \<Longrightarrow> sqlConn (captured a) = h"
proof -
  have c: "connection config False w = (Inr h, w)"
    using assms by (simp add: connection_def newConnection_def ended_def)
  show "conn (snd (useMySQLAuthState U config w)) = Some h"
    and "closing (snd (useMySQLAuthState U config w)) = closing w"
    and "next_handle (snd (useMySQLAuthState U config w)) = next_handle w"
    and "handle_options (snd (useMySQLAuthState U config w)) = handle_options w"
    using assms by (simp_all add: open_connected(1)[OF c] readData_frame)
  show "fst (useMySQLAuthState U config w) = Inr a \<Longrightarrow> sqlConn (captured a) = h"
    by (auto simp: open_connected(2)[OF c] captured_constants_def split: sum.splits)
qed

lemma connection_none:
  assumes "conn w = None" and "\<forall>h. \<not> closing w h"
  shows "\<forall>h. \<not> closing (snd (connection config False w)) h"
    and "fst (connection config False w) = Inr h \<Longrightarrow> h = next_handle w"
    and "(conn (snd (connection config False w)) = None
           \<and> next_handle (snd (connection config False w)) = next_handle w
           \<and> isl (fst (connection config False w)))
         \<or> (conn (snd (connection config False w)) = Some (next_handle w)
           \<and> next_handle (snd (connection config False w)) = Suc (next_handle w))"
proof -
  have n: "newConnection w \<or> ended w \<or> False"
    using assms(1) by (simp add: newConnection_def)
  show "\<forall>h. \<not> closing (snd (connection config False w)) h"
  proof (cases "fails w (clock w)")
    case True
    then show ?thesis using assms(2) by (simp add: connection_new_rejected[OF n] driver_call_def)
  next
    case False
    then show ?thesis using assms(2) by (simp add: connection_new_created(4)[OF n])
  qed
  show "fst (connection config False w) = Inr h \<Longrightarrow> h = next_handle w"
  proof (cases "fails w (clock w)")
    case True
    then show "fst (connection config False w) = Inr h \<Longrightarrow> h = next_handle w"
      by (simp add: connection_new_rejected[OF n])
  next
    case False
    then show "fst (connection config False w) = Inr h \<Longrightarrow> h = next_handle w"
      using connection_new_created(5)[OF n] by blast
  qed
  show "(conn (snd (connection config False w)) = None
           \<and> next_handle (snd (connection config False w)) = next_handle w
           \<and> isl (fst (connection config False w)))
         \<or> (conn (snd (connection config False w)) = Some (next_handle w)
           \<and> next_handle (snd (connection config False w)) = Suc (next_handle w))"
  proof (cases "fails w (clock w)")
    case True
    then show ?thesis using assms(1) by (simp add: connection_new_rejected[OF n] driver_call_def)
  next
    case False
    then show ?thesis by (simp add: connection_new_created(1,2)[OF n])
  qed
qed

lemma open_frame_none:
  assumes "conn w = None" and "\<forall>h. \<not> closing w h"
  shows "\<forall>h. \<not> closing (snd (useMySQLAuthState U config w)) h"
    and "(conn (snd (useMySQLAuthState U config w)) = None
           \<and> next_handle (snd (useMySQLAuthState U config w)) = next_handle w
           \<and> isl (fst (useMySQLAuthState U config w)))
         \<or> (conn (snd (useMySQLAuthState U config w)) = Some (next_handle w)
           \<and> next_handle (snd (useMySQLAuthState U config w)) = Suc (next_handle w)
           \<and> (\<forall>a. fst (useMySQLAuthState U config w) = Inr a \<longrightarrow> sqlConn (captured a) = next_handle w))"
proof -
  obtain r w1 where c: "connection config False w = (r, w1)"
    by (cases "connection config False w")
  note cn = connection_none[OF assms, of config]
  show "\<forall>h. \<not> closing (snd (useMySQLAuthState U config w)) h"
  proof (cases r)
    case (Inl e)
    with c cn(1) show ?thesis by (simp add: open_failed)
  next
    case (Inr h)
    with c cn(1) show ?thesis by (simp add: open_connected(1) readData_frame)
  qed
  show "(conn (snd (useMySQLAuthState U config w)) = None
           \<and> next_handle (snd (useMySQLAuthState U config w)) = next_handle w
           \<and> isl (fst (useMySQLAuthState U config w)))
         \<or> (conn (snd (useMySQLAuthState U config w)) = Some (next_handle w)
           \<and> next_handle (snd (useMySQLAuthState U config w)) = Suc (next_handle w)
           \<and> (\<forall>a. fst (useMySQLAuthState U config w) = Inr a \<longrightarrow> sqlConn (captured a) = next_handle w))"
  proof (cases r)
    case (Inl e)
    with c cn(3) show ?thesis by (auto simp: open_failed)
  next
    case (Inr h)
    with c cn(2)[of h] have h: "h = next_handle w" by simp
    from Inr c cn(3) show ?thesis
      by (auto simp: open_connected readData_frame captured_constants_def h split: sum.splits)
  qed
qed


lemma open_all_existing:
  assumes "conn w = Some h" and "\<not> closing w h" and "open_all U configs w = (rs, w')"
  shows "conn w' = Some h \<and> next_handle w' = next_handle w \<and> closing w' = closing w
       \<and> handle_options w' = handle_options w
       \<and> (\<forall>a. Inr a \<in> set rs \<longrightarrow> sqlConn (captured a) = h)"
  using assms
proof (induction configs arbitrary: w rs)
  case Nil
  then show ?case by simp
next
  case (Cons config configs)
  obtain r w1 where o: "useMySQLAuthState U config w = (r, w1)"
    by (cases "useMySQLAuthState U config w")
  obtain rs1 where rest: "open_all U configs w1 = (rs1, w')" and rs: "rs = r # rs1"
    using Cons.prems(3) o by (auto split: prod.splits)
  note f = open_frame_existing[OF Cons.prems(1,2), of U config]
  have w1: "conn w1 = Some h" "closing w1 = closing w" "next_handle w1 = next_handle w"
    "handle_options w1 = handle_options w"
    using f(1-4) o by simp_all
  have r: "\<forall>a. r = Inr a \<longrightarrow> sqlConn (captured a) = h"
    using f(5) o by simp
  from Cons.IH[OF w1(1) _ rest] w1 Cons.prems(2) r rs show ?case
    by auto
qed

lemma open_all_shared:
  assumes "\<forall>h. \<not> closing w h" and "open_all U configs w = (rs, w')"
  shows "next_handle w' \<le> Suc (next_handle w)
       \<and> (\<forall>a. Inr a \<in> set rs \<longrightarrow> conn w' = Some (sqlConn (captured a)))
       \<and> (\<forall>h. conn w = Some h \<longrightarrow> conn w' = Some h \<and> next_handle w' = next_handle w)"
  using assms
proof (induction configs arbitrary: w rs)
  case Nil
  then show ?case by simp
next
  case (Cons config configs)
  show ?case
  proof (cases "conn w")
    case (Some h)
    from open_all_existing[OF Some _ Cons.prems(2)] Cons.prems(1) Some show ?thesis
      by auto
  next
    case None
    obtain r w1 where o: "useMySQLAuthState U config w = (r, w1)"
      by (cases "useMySQLAuthState U config w")
    obtain rs1 where rest: "open_all U configs w1 = (rs1, w')" and rs: "rs = r # rs1"
      using Cons.prems(2) o by (auto split: prod.splits)
    note f = open_frame_none[OF None Cons.prems(1), of U config]
    have cl: "\<forall>h. \<not> closing w1 h"
      using f(1) o by simp
    from f(2) o consider
      (still) "conn w1 = None" "next_handle w1 = next_handle w" "isl r"
      | (made) "conn w1 = Some (next_handle w)" "next_handle w1 = Suc (next_handle w)"
          "\<forall>a. r = Inr a \<longrightarrow> sqlConn (captured a) = next_handle w"
      by auto
    then show ?thesis
    proof cases
      case still
      from Cons.IH[OF cl rest] still rs None show ?thesis
        by (auto simp: isl_def)
    next
      case made
      from open_all_existing[OF made(1) _ rest] cl made rs None show ?thesis
        by auto
    qed
  qed
qed



text \<open>
  Claim C9, as stated, fails: a store opened for a second target gets no handle of its
  own. After a store has been opened with \<open>configA\<close>, opening a store with \<open>configB\<close>,
  which names another host, creates nothing: the second store captures the handle 0,
  which is connected to the host of \<open>configA\<close>, and only one handle exists.
\<close>

theorem handle_per_target_counterexample:
  "fst (useMySQLAuthState U0 configA world0)
     = Inr auth0
   \<and> fst (useMySQLAuthState U0 configB (snd (useMySQLAuthState U0 configA world0)))
     = Inr auth0
   \<and> sqlConn (captured auth0) = 0
   \<and> map_option host
        (handle_options
           (snd (useMySQLAuthState U0 configB (snd (useMySQLAuthState U0 configA world0)))) 0)
     = Some ''db-a.example''
   \<and> host (connection_options configB) = ''db-b.example''
   \<and> next_handle
        (snd (useMySQLAuthState U0 configB (snd (useMySQLAuthState U0 configA world0)))) = 1"
  by (simp add: eval_defs)

text \<open>
  Claim C9, amended. The handle is one for the whole process, not one per target, and
  there is no pool. Stores are opened one after another, with any configurations, in a
  world where no handle reports itself closed. Then at most one handle is created; if
  one existed before, none is created and it stays; every store that opens captures the
  one handle the module holds at the end, whatever target its configuration names; and
  every attempt of every such store's \<open>query\<close> is made on that handle.
\<close>

theorem one_shared_handle:
  assumes "\<forall>h. \<not> closing w h" and "open_all U configs w = (rs, w')"
  shows "next_handle w' \<le> Suc (next_handle w)
       \<and> (\<forall>h. conn w = Some h \<longrightarrow> conn w' = Some h \<and> next_handle w' = next_handle w)
       \<and> (\<forall>a. Inr a \<in> set rs \<longrightarrow>
             conn w' = Some (sqlConn (captured a))
           \<and> (\<forall>s v h' s'.
                 Query h' s' \<in> set (drop (length (trace v)) (trace (snd (facade_query a s v))))
                 \<longrightarrow> conn w' = Some h'))"
proof -
  have q: "conn w' = Some h'"
    if a: "conn w' = Some (sqlConn (captured a))"
      and e: "Query h' s' \<in> set (drop (length (trace v)) (trace (snd (facade_query a s v))))"
    for a s v h' s'
  proof -
    have "snd (facade_query a s v) = snd (query (captured a) s v)"
      by (simp add: facade_query_def split: prod.splits)
    with e query_events[of v "captured a" s] have "h' = sqlConn (captured a)"
      by auto
    with a show ?thesis by simp
  qed
  from open_all_shared[OF assms] q show ?thesis
    by blast
qed

theorem one_shared_handle_witness:
  "(\<forall>h. \<not> closing world0 h)
   \<and> fst (open_all U0 [configA, configB] world0) = [Inr auth0, Inr auth0]
   \<and> next_handle (snd (open_all U0 [configA, configB] world0)) \<le> Suc (next_handle world0)
   \<and> conn (snd (open_all U0 [configA, configB] world0)) = Some (sqlConn (captured auth0))"
proof -
  have c: "\<forall>h. \<not> closing world0 h"
    by (simp add: world0_def)
  have o: "open_all U0 [configA, configB] world0
             = (fst (open_all U0 [configA, configB] world0),
                snd (open_all U0 [configA, configB] world0))"
    by simp
  have r: "fst (open_all U0 [configA, configB] world0) = [Inr auth0, Inr auth0]"
    by (simp add: eval_defs split: prod.splits)
  have m: "Inr auth0 \<in> set (fst (open_all U0 [configA, configB] world0))"
    by (simp only: r) simp
  from one_shared_handle[OF c o] m c r show ?thesis
    by blast
qed

section \<open>The executor against the database\<close>

lemma conn_query_result:
  "conn_query h s w
     = (if fails w (clock w) then (Inl QueryError, driver_call (Query h s) w)
        else (case sql_exec (other_sql w) (typeCast w) s (tables w) of
                None \<Rightarrow> (Inl QueryError, driver_call (Query h s) w)
              | Some (d, db) \<Rightarrow> (Inr d, (driver_call (Query h s) w)\<lparr> tables := db \<rparr>)))"
  by (simp add: conn_query_def run_statement_def)

lemma tables_driver_call: "tables (driver_call e w) = tables w"
  by (simp add: driver_call_def)

lemma conn_query_rejected_tables:
  assumes "isl (fst (conn_query h s w))"
  shows "tables (snd (conn_query h s w)) = tables w"
  using assms by (auto simp: conn_query_result tables_driver_call split: if_splits option.splits)

lemma retry_steps_tables:
  assumes "\<forall>j<k. isl (fst (conn_query (sqlConn st) s ((retry_step st s ^^ j) w)))"
  shows "tables ((retry_step st s ^^ k) w) = tables w"
  using assms
proof (induction k)
  case 0
  show ?case by simp
next
  case (Suc k)
  then have "tables ((retry_step st s ^^ k) w) = tables w"
    and "isl (fst (conn_query (sqlConn st) s ((retry_step st s ^^ k) w)))"
    by simp_all
  moreover have "tables (retry_step st s v) = tables (snd (conn_query (sqlConn st) s v))" for v
    by (simp add: retry_step_def sleep_def)
  ultimately show ?case
    by (simp add: conn_query_rejected_tables)
qed

lemma query_responds:
  assumes "responsive st w" and "sql_exec (other_sql w) (typeCast w) s (tables w) = Some (d, db)"
  shows "fst (query st s w) = d" and "tables (snd (query st s w)) = db"
proof -
  obtain k where k: "int k \<le> max (maxtRetries st) 0"
    and fl: "\<forall>j<k. isl (fst (conn_query (sqlConn st) s ((retry_step st s ^^ j) w)))"
    and res: "if int k < maxtRetries st
         then conn_query (sqlConn st) s ((retry_step st s ^^ k) w)
                = (Inr (fst (query st s w)), snd (query st s w))
         else query st s w = (Rows [], (retry_step st s ^^ k) w)"
    using query_outcome by blast
  obtain k0 where k0: "int k0 < maxtRetries st" "\<not> fails w (clock w + k0)"
    using assms(1) unfolding responsive_def by blast
  have accepted: "\<not> isl (fst (conn_query (sqlConn st) s ((retry_step st s ^^ j) w)))"
    if "tables ((retry_step st s ^^ j) w) = tables w" and "\<not> fails w (clock w + j)" for j
    using that assms(2) by (simp add: conn_query_result retry_steps_frame)
  have "k \<le> k0"
  proof (rule ccontr)
    assume "\<not> k \<le> k0"
    then have lt: "k0 < k" by simp
    then have "\<forall>j<k0. isl (fst (conn_query (sqlConn st) s ((retry_step st s ^^ j) w)))"
      using fl by simp
    then have "tables ((retry_step st s ^^ k0) w) = tables w"
      by (rule retry_steps_tables)
    from accepted[OF this k0(2)] fl lt show False by blast
  qed
  with k0(1) have "int k < maxtRetries st" by simp
  with res have c: "conn_query (sqlConn st) s ((retry_step st s ^^ k) w)
                = (Inr (fst (query st s w)), snd (query st s w))" by simp
  have t: "tables ((retry_step st s ^^ k) w) = tables w"
    using fl by (rule retry_steps_tables)
  have "conn_query (sqlConn st) s ((retry_step st s ^^ k) w)
          = (Inr d, (driver_call (Query (sqlConn st) s) ((retry_step st s ^^ k) w))\<lparr> tables := db \<rparr>)"
    using c assms(2) t
    by (auto simp: conn_query_result retry_steps_frame split: if_splits option.splits)
  with c have "fst (query st s w) = d"
    and "snd (query st s w)
           = (driver_call (Query (sqlConn st) s) ((retry_step st s ^^ k) w))\<lparr> tables := db \<rparr>"
    by simp_all
  then show "fst (query st s w) = d" and "tables (snd (query st s w)) = db"
    by simp_all
qed

lemma query_gives_up:
  assumes "(\<forall>n. fails w n) \<or> sql_exec (other_sql w) (typeCast w) s (tables w) = None"
  shows "fst (query st s w) = Rows []" and "tables (snd (query st s w)) = tables w"
proof -
  obtain k where k: "int k \<le> max (maxtRetries st) 0"
    and fl: "\<forall>j<k. isl (fst (conn_query (sqlConn st) s ((retry_step st s ^^ j) w)))"
    and res: "if int k < maxtRetries st
         then conn_query (sqlConn st) s ((retry_step st s ^^ k) w)
                = (Inr (fst (query st s w)), snd (query st s w))
         else query st s w = (Rows [], (retry_step st s ^^ k) w)"
    using query_outcome by blast
  have t: "tables ((retry_step st s ^^ k) w) = tables w"
    using fl by (rule retry_steps_tables)
  have "isl (fst (conn_query (sqlConn st) s ((retry_step st s ^^ k) w)))"
    using assms t by (auto simp: conn_query_result retry_steps_frame split: option.splits)
  with res have "query st s w = (Rows [], (retry_step st s ^^ k) w)"
    by (auto split: if_splits)
  with t show "fst (query st s w) = Rows []" and "tables (snd (query st s w)) = tables w"
    by simp_all
qed

lemma responsive_after_query: "responsive st (snd (query st' s w)) = responsive st w"
  by (simp add: responsive_def query_frame)


lemma query_result:
  "(fst (query st s w) = Rows [] \<and> tables (snd (query st s w)) = tables w)
   \<or> sql_exec (other_sql w) (typeCast w) s (tables w) = Some (fst (query st s w), tables (snd (query st s w)))"
proof -
  obtain k where k: "int k \<le> max (maxtRetries st) 0"
    and fl: "\<forall>j<k. isl (fst (conn_query (sqlConn st) s ((retry_step st s ^^ j) w)))"
    and res: "if int k < maxtRetries st
         then conn_query (sqlConn st) s ((retry_step st s ^^ k) w)
                = (Inr (fst (query st s w)), snd (query st s w))
         else query st s w = (Rows [], (retry_step st s ^^ k) w)"
    using query_outcome by blast
  have t: "tables ((retry_step st s ^^ k) w) = tables w"
    using fl by (rule retry_steps_tables)
  show ?thesis
  proof (cases "int k < maxtRetries st")
    case False
    with res t show ?thesis by simp
  next
    case True
    with res have c: "conn_query (sqlConn st) s ((retry_step st s ^^ k) w)
                = (Inr (fst (query st s w)), snd (query st s w))" by simp
    then obtain d db where e: "sql_exec (other_sql w) (typeCast w) s (tables w) = Some (d, db)"
      and q: "(Inr d, (driver_call (Query (sqlConn st) s) ((retry_step st s ^^ k) w))\<lparr> tables := db \<rparr>)
               = (Inr (fst (query st s w)), snd (query st s w))"
      using t by (auto simp: conn_query_result retry_steps_frame split: if_splits option.splits)
    from q have "fst (query st s w) = d"
      and "snd (query st s w)
           = (driver_call (Query (sqlConn st) s) ((retry_step st s ^^ k) w))\<lparr> tables := db \<rparr>"
      by simp_all
    with e show ?thesis by simp
  qed
qed

lemma first_value_select:
  "first_value (Rows (map (\<lambda>r. cell cast (snd r)) (filter (\<lambda>r. fst r = i) rows)))
     = map_option (cell cast) (map_of rows i)"
  by (induction rows) auto

lemma readData_responds:
  assumes "responsive st w" and "tables w (tableName st) = Some rows"
  shows "fst (readData st i w) = decode_value (map_option (cell (typeCast w)) (map_of rows i))"
    and "tables (snd (readData st i w)) = tables w"
proof -
  have e: "sql_exec (other_sql w) (typeCast w) (Select (tableName st) i) (tables w)
        = Some (Rows (map (\<lambda>r. cell (typeCast w) (snd r)) (filter (\<lambda>r. fst r = i) rows)), tables w)"
    using assms(2) by simp
  from query_responds[OF assms(1) e]
  show "fst (readData st i w) = decode_value (map_option (cell (typeCast w)) (map_of rows i))"
    and "tables (snd (readData st i w)) = tables w"
    by (simp_all add: readData_eq first_value_select)
qed

lemma readData_tables: "tables (snd (readData st i w)) = tables w"
  using query_result[of st "Select (tableName st) i" w]
  by (auto simp: readData_eq split: option.splits)

lemma readData_gives_up:
  assumes "(\<forall>n. fails w n) \<or> tables w (tableName st) = None"
  shows "fst (readData st i w) = Inr VNull"
proof -
  have "(\<forall>n. fails w n) \<or> sql_exec (other_sql w) (typeCast w) (Select (tableName st) i) (tables w) = None"
    using assms by auto
  from query_gives_up(1)[OF this] show ?thesis
    by (simp add: readData_eq decode_value_def)
qed

lemma readData_absent:
  assumes "i \<notin> fst ` set (rows_of (tables w) (tableName st))"
  shows "fst (readData st i w) = Inr VNull"
proof -
  let ?q = "query st (Select (tableName st) i) w"
  have "first_value (fst ?q) = None"
  proof -
    from query_result[of st "Select (tableName st) i" w] consider
      (gave_up) "fst ?q = Rows []"
      | (answered) "sql_exec (other_sql w) (typeCast w) (Select (tableName st) i) (tables w)
                      = Some (fst ?q, tables (snd ?q))"
      by blast
    then show ?thesis
    proof cases
      case gave_up
      then show ?thesis by simp
    next
      case answered
      then obtain rows where r: "tables w (tableName st) = Some rows"
        and f: "fst ?q = Rows (map (\<lambda>r. cell (typeCast w) (snd r)) (filter (\<lambda>r. fst r = i) rows))"
        by (auto split: option.splits)
      have "map_of rows i = None"
        using assms r by (simp add: rows_of_def map_of_eq_None_iff)
      then show ?thesis
        by (simp only: f first_value_select) simp
    qed
  qed
  then show ?thesis
    by (simp add: readData_eq decode_value_def)
qed


section \<open>The codec and the key-value store\<close>

lemma decode_bytes_encoded: "decode_bytes (map (\<lambda>b. JNum (uint b)) bs) = Some bs"
proof (induction bs)
  case Nil
  show ?case by simp
next
  case (Cons b bs)
  have "uint b < 256"
    using uint_bounded[of b] by simp
  with Cons show ?case by simp
qed

lemma unmarker_marker: "unmarker (marker bs) = Some bs"
  by (simp add: marker_def decode_bytes_encoded)

lemma reviver_replacer:
  "marker_free v \<Longrightarrow> reviver (replacer v) = v"
  "marker_free_list xs \<Longrightarrow> reviver_list (replacer_list xs) = xs"
  "marker_free_fields fs \<Longrightarrow> reviver_fields (replacer_fields fs) = fs"
proof (induction v and xs and fs rule: replacer_replacer_list_replacer_fields.induct)
  case (6 fs)
  then show ?case by simp
next
  case (7 bs)
  have "reviver (marker bs) = VBuf bs"
    using unmarker_marker[of bs] by (simp add: marker_def)
  then show ?case by simp
qed simp_all

lemma JSON_parse_serialize: "JSON_parse (serialize v) = Some (replacer v)"
  by (simp add: serialize_def JSON_parse_stringify)

lemma deserialize_serialize: "deserialize (serialize v) = Some (reviver (replacer v))"
  by (simp add: deserialize_def JSON_parse_serialize)

lemma stringify_nonempty: "JSON_stringify j \<noteq> []"
  using stringify_head[of j] by auto

lemma replacer_object:
  assumes "is_object v"
  shows "truthy_json (replacer v)" and "raw_text (replacer v) = JSON_stringify (replacer v)"
  using assms by (cases v; simp add: marker_def)+

lemma decode_value_document:
  assumes "cast \<Longrightarrow> truthy_json d \<and> raw_text d = JSON_stringify d"
  shows "decode_value (Some (cell cast (Some d))) = Inr (reviver d)"
proof (cases cast)
  case True
  with assms show ?thesis
    by (simp add: decode_value_def cell_def deserialize_def JSON_parse_stringify)
next
  case False
  then show ?thesis
    by (simp add: decode_value_def cell_def deserialize_def JSON_parse_stringify stringify_nonempty)
qed

lemma map_of_upsert_row_same: "map_of (upsert_row i d d rows) i = Some (Some d)"
proof (cases "i \<in> fst ` set rows")
  case False
  then have "map_of rows i = None"
    by (simp add: map_of_eq_None_iff)
  with False show ?thesis
    by (simp add: upsert_row_def map_add_def)
next
  case True
  have "i \<in> fst ` set rs \<Longrightarrow>
        map_of (map (\<lambda>r. if fst r = i then (i, Some d) else r) rs) i = Some (Some d)" for rs
    by (induction rs) auto
  with True show ?thesis
    by (simp add: upsert_row_def)
qed

lemma map_of_upsert_row_other:
  assumes "j \<noteq> i"
  shows "map_of (upsert_row i d e rows) j = map_of rows j"
proof -
  have "map_of (map (\<lambda>r. if fst r = i then (i, Some e) else r) rs) j = map_of rs j" for rs
    using assms by (induction rs) auto
  then show ?thesis
    using assms by (auto simp: upsert_row_def map_add_def split: option.splits)
qed

lemma ids_upsert_row:
  "map fst (upsert_row i d e rows)
     = (if i \<in> fst ` set rows then map fst rows else map fst rows @ [i])"
proof -
  have "map fst (map (\<lambda>r. if fst r = i then (i, Some e) else r) rs) = map fst rs" for rs
    by (induction rs) auto
  then show ?thesis
    by (simp add: upsert_row_def)
qed

lemma distinct_upsert_row:
  assumes "distinct (map fst rows)"
  shows "distinct (map fst (upsert_row i d e rows))"
  using assms by (auto simp: ids_upsert_row)

lemma rows_with_id:
  "length (filter (\<lambda>r. fst r = i) rows) = count_list (map fst rows) i"
  by (induction rows) auto

lemma writeData_eq:
  "writeData st i v w
     = (Inr (), snd (query st (Upsert (tableName st) i (serialize v) (serialize v)) w))"
  by (simp add: writeData_def Let_def case_prod_beta)

lemma writeData_responds:
  assumes "responsive st w" and "tables w (tableName st) = Some rows" and "length i \<le> 80"
  shows "tables (snd (writeData st i v w))
           = (tables w)(tableName st \<mapsto> upsert_row i (replacer v) (replacer v) rows)"
proof -
  have e: "sql_exec (other_sql w) (typeCast w) (Upsert (tableName st) i (serialize v) (serialize v)) (tables w)
        = Some (ResultSetHeader,
                (tables w)(tableName st \<mapsto> upsert_row i (replacer v) (replacer v) rows))"
    using assms(2,3) by (simp add: JSON_parse_serialize)
  from query_responds(2)[OF assms(1) e] show ?thesis
    by (simp add: writeData_eq)
qed

lemma writeData_frame:
  "typeCast (snd (writeData st i v w)) = typeCast w"
  "fails (snd (writeData st i v w)) = fails w"
  "responsive st' (snd (writeData st i v w)) = responsive st' w"
  by (simp_all add: writeData_eq query_frame responsive_after_query)

lemma write_then_read:
  assumes "responsive st w" and "tables w (tableName st) = Some rows" and "is_object v"
    and "length i \<le> 80"
  shows "fst (readData st i (snd (writeData st i v w))) = Inr (reviver (replacer v))"
proof -
  let ?w' = "snd (writeData st i v w)"
  have t: "tables ?w' (tableName st) = Some (upsert_row i (replacer v) (replacer v) rows)"
    by (simp add: writeData_responds[OF assms(1,2,4)])
  have r: "responsive st ?w'"
    using assms(1) by (simp add: writeData_frame)
  from readData_responds(1)[OF r t, of i] show ?thesis
    by (simp add: map_of_upsert_row_same decode_value_document replacer_object[OF assms(3)])
qed


lemma one_row_with_id:
  assumes "distinct (map fst rs)" and "i \<in> fst ` set rs"
  shows "length (filter (\<lambda>r. fst r = i) rs) = 1"
  using assms
proof (induction rs)
  case Nil
  then show ?case by simp
next
  case (Cons r rs)
  show ?case
  proof (cases "fst r = i")
    case True
    with Cons.prems(1) have "i \<notin> fst ` set rs"
      by simp
    then have "filter (\<lambda>r. fst r = i) rs = []"
      by (force simp: filter_empty_conv)
    with True show ?thesis by simp
  next
    case False
    with Cons show ?thesis by auto
  qed
qed

lemma length_upsert_row_present:
  assumes "i \<in> fst ` set rows"
  shows "length (upsert_row i d e rows) = length rows"
  using assms by (simp add: upsert_row_def)

lemma id_in_upsert_row: "i \<in> fst ` set (upsert_row i d e rows)"
proof -
  have "i \<in> set (map fst (upsert_row i d e rows))"
    by (simp only: ids_upsert_row) auto
  then show ?thesis by simp
qed

lemma responsive_world1: "responsive locals0 world1"
  unfolding responsive_def
proof
  fix t
  show "\<exists>k. int k < maxtRetries locals0 \<and> \<not> fails world1 (t + k)"
    by (rule exI[of _ 0]) (simp add: locals0_def world1_def world0_def)
qed

lemma responsive_world2: "responsive locals0 world2"
  unfolding responsive_def
proof
  fix t
  show "\<exists>k. int k < maxtRetries locals0 \<and> \<not> fails world2 (t + k)"
    by (rule exI[of _ 0]) (simp add: locals0_def world2_def world0_def)
qed


lemma world2_rows:
  "tables world2 (tableName locals0)
       = Some [(''creds'', Some (JObj [(''registrationId'', JNum 7)])), (''session-abc'', None),
               (''pre-key-1'', Some (JObj [(''public'', marker [9])]))]"
  by (simp add: world2_def locals0_def)

lemma typeCast_world2: "typeCast world2"
  by (simp add: world2_def world0_def)


lemma select_responds:
  assumes "responsive st w" and "tables w (tableName st) = Some rows"
  shows "first_value (fst (query st (Select (tableName st) i) w))
           = map_option (cell (typeCast w)) (map_of rows i)"
proof -
  have e: "sql_exec (other_sql w) (typeCast w) (Select (tableName st) i) (tables w)
        = Some (Rows (map (\<lambda>r. cell (typeCast w) (snd r)) (filter (\<lambda>r. fst r = i) rows)), tables w)"
    using assms(2) by simp
  from query_responds(1)[OF assms(1) e] show ?thesis
    by (simp add: first_value_select)
qed

subsection \<open>Reading a record\<close>

text \<open>
  Claim C5. \<open>readData\<close> returns null when the executor returned no row, and when the
  value of the first row is empty, that is falsy: SQL NULL, JSON null, and from a driver
  that parses JSON columns also \<open>false\<close>, \<open>0\<close> and the empty string. Otherwise the value
  goes through the codec: its text is read by \<open>JSON.parse\<close> with the reviver, and a text
  that cannot be read raises the SyntaxError. Parsed structured data (an object or an
  array) is first written out by \<open>JSON.stringify\<close> and that text is deserialized, which
  always succeeds and gives the revived value: the reviver runs on this one path. (A
  string is taken as raw text, a number or boolean as the text \<open>JSON.parse\<close> makes of
  it.) When the store answers within the retry budget and the table exists, the value of
  the first row is the value the table holds for the id, and there is none exactly when
  the table has no row for it.
\<close>

theorem readData_cases:
  "fst (readData st i w)
     = (case first_value (fst (query st (Select (tableName st) i) w)) of
          None \<Rightarrow> Inr VNull
        | Some v \<Rightarrow>
            if \<not> truthy_json v then Inr VNull
            else if typeof_object v then Inr (reviver v)
            else (case deserialize (raw_text v) of
                    None \<Rightarrow> Inl SyntaxError
                  | Some x \<Rightarrow> Inr x))
   \<and> (\<forall>v. truthy_json v \<and> typeof_object v \<longrightarrow>
           raw_text v = JSON_stringify v
         \<and> deserialize (JSON_stringify v) = Some (reviver v))
   \<and> (\<forall>rows. responsive st w \<and> tables w (tableName st) = Some rows \<longrightarrow>
           first_value (fst (query st (Select (tableName st) i) w))
             = map_option (cell (typeCast w)) (map_of rows i))"
proof -
  have canon: "raw_text v = JSON_stringify v \<and> deserialize (JSON_stringify v) = Some (reviver v)"
    if "truthy_json v" and "typeof_object v" for v
    using that by (cases v) (simp_all add: deserialize_def JSON_parse_stringify)
  have "decode_value x
          = (case x of
               None \<Rightarrow> Inr VNull
             | Some v \<Rightarrow>
                 if \<not> truthy_json v then Inr VNull
                 else if typeof_object v then Inr (reviver v)
                 else (case deserialize (raw_text v) of
                         None \<Rightarrow> Inl SyntaxError
                       | Some y \<Rightarrow> Inr y))" for x
    using canon by (auto simp: decode_value_def split: option.splits)
  with canon select_responds[of st w _ i] show ?thesis
    by (simp add: readData_eq)
qed

theorem readData_cases_witness:
  "responsive locals0 world2
   \<and> tables world2 (tableName locals0)
       = Some [(''creds'', Some (JObj [(''registrationId'', JNum 7)])), (''session-abc'', None),
               (''pre-key-1'', Some (JObj [(''public'', marker [9])]))]
   \<and> fst (readData locals0 ''creds'' world2) = Inr (VObj [(''registrationId'', VNum 7)])
   \<and> fst (readData locals0 ''session-abc'' world2) = Inr VNull
   \<and> fst (readData locals0 ''pre-key-1'' world2) = Inr (VObj [(''public'', VBuf [9])])
   \<and> fst (readData locals0 ''pre-key-2'' world2) = Inr VNull"
proof -
  note t = world2_rows
  from readData_cases[of locals0 "''creds''" world2]
    readData_cases[of locals0 "''session-abc''" world2]
    readData_cases[of locals0 "''pre-key-1''" world2]
    readData_cases[of locals0 "''pre-key-2''" world2]
    t responsive_world2
  show ?thesis
    by (simp add: cell_def typeCast_world2 marker_def)
qed


subsection \<open>Writing and reading back\<close>

text \<open>
  Claim C3, as stated, fails for a value that contains a plain object of the marker's own
  shape: it is written exactly as a byte sequence is, and read back as a byte sequence.
\<close>

theorem write_read_roundtrip_counterexample:
  "fst (readData locals0 ''session-abc''
          (snd (writeData locals0 ''session-abc'' (VObj [(''key'', lookalike)]) world1)))
     = Inr (VObj [(''key'', VBuf [1, 2])])
   \<and> VObj [(''key'', VBuf [1, 2])] \<noteq> VObj [(''key'', lookalike)]"
proof -
  have t: "tables world1 (tableName locals0) = Some []"
    by (simp add: world1_def locals0_def)
  have l: "length ''session-abc'' \<le> 80"
    by simp
  from write_then_read[OF responsive_world1 t _ l, of "VObj [(''key'', lookalike)]"]
  show ?thesis
    by (simp add: lookalike_def)
qed



text \<open>
  Claim C3, amended. The store answers within the retry budget and the table exists. For
  every id not present in the table (an id has at most 80 characters, the width of its
  column) and every structured value \<open>v\<close> (an object, an array or a byte sequence) that
  contains no plain object of the marker's shape, \<open>readData\<close> after \<open>writeData\<close> returns
  \<open>v\<close> itself: equal in structure, every nested byte sequence with exactly its bytes.
\<close>

theorem write_read_roundtrip:
  assumes "responsive st w" and "tables w (tableName st) = Some rows"
    and "length i \<le> 80" and "i \<notin> fst ` set rows" and "is_object v" and "marker_free v"
  shows "fst (readData st i (snd (writeData st i v w))) = Inr v"
  using write_then_read[OF assms(1,2,5,3)] reviver_replacer(1)[OF assms(6)] by simp

theorem write_read_roundtrip_witness:
  "responsive locals0 world1 \<and> tables world1 (tableName locals0) = Some []
   \<and> length ''session-abc'' \<le> 80 \<and> is_object value0 \<and> marker_free value0
   \<and> fst (readData locals0 ''session-abc'' (snd (writeData locals0 ''session-abc'' value0 world1)))
       = Inr value0"
proof -
  have t: "tables world1 (tableName locals0) = Some []"
    by (simp add: world1_def locals0_def)
  have l: "length ''session-abc'' \<le> 80"
    by simp
  have f: "''session-abc'' \<notin> fst ` set ([] :: table)"
    by simp
  have o: "is_object value0" and m: "marker_free value0"
    by (simp_all add: value0_def marker_def)
  from write_read_roundtrip[OF responsive_world1 t l f o m] t o m responsive_world1
  show ?thesis by simp
qed


text \<open>
  Claim C2, as stated, fails for the same reason when the second value is an object of
  the marker's shape: the read returns a byte sequence, not the value written.
\<close>

theorem upsert_replaces_counterexample:
  "fst (readData locals0 ''creds''
          (snd (writeData locals0 ''creds'' lookalike
                  (snd (writeData locals0 ''creds'' value1 world1)))))
     = Inr (VBuf [1, 2])
   \<and> VBuf [1, 2] \<noteq> lookalike"
proof -
  let ?w1 = "snd (writeData locals0 ''creds'' value1 world1)"
  have t: "tables world1 (tableName locals0) = Some []"
    by (simp add: world1_def locals0_def)
  have t1: "tables ?w1 (tableName locals0)
              = Some (upsert_row ''creds'' (replacer value1) (replacer value1) [])"
    by (simp add: writeData_responds[OF responsive_world1 t])
  have r1: "responsive locals0 ?w1"
    using responsive_world1 by (simp add: writeData_frame)
  have l: "length ''creds'' \<le> 80"
    by simp
  from write_then_read[OF r1 t1 _ l, of lookalike] show ?thesis
    by (simp add: lookalike_def)
qed


text \<open>
  Claim C2, amended. The store answers within the retry budget, the table exists and its
  ids are distinct, as its primary key has them. For every id (of at most 80 characters,
  the width of its column), every value \<open>v1\<close> and every structured value \<open>v2\<close> that the
  codec reproduces, \<open>readData\<close> after the two writes returns \<open>v2\<close>. The second write
  adds no row: the table is as long as after the first write, its ids are still distinct,
  exactly one row has the id, and that row holds the document of \<open>v2\<close>.
\<close>

theorem upsert_replaces:
  assumes "responsive st w" and "tables w (tableName st) = Some rows"
    and "distinct (map fst rows)" and "length i \<le> 80"
    and "is_object v2" and "reviver (replacer v2) = v2"
  shows "fst (readData st i (snd (writeData st i v2 (snd (writeData st i v1 w))))) = Inr v2
       \<and> (\<exists>rows1 rows2.
             tables (snd (writeData st i v1 w)) (tableName st) = Some rows1
           \<and> tables (snd (writeData st i v2 (snd (writeData st i v1 w)))) (tableName st)
               = Some rows2
           \<and> length rows2 = length rows1
           \<and> distinct (map fst rows2)
           \<and> length (filter (\<lambda>r. fst r = i) rows2) = 1
           \<and> map_of rows2 i = Some (Some (replacer v2)))"
proof -
  let ?w1 = "snd (writeData st i v1 w)"
  let ?w2 = "snd (writeData st i v2 ?w1)"
  let ?rows1 = "upsert_row i (replacer v1) (replacer v1) rows"
  let ?rows2 = "upsert_row i (replacer v2) (replacer v2) ?rows1"
  have t1: "tables ?w1 (tableName st) = Some ?rows1"
    by (simp add: writeData_responds[OF assms(1,2,4)])
  have r1: "responsive st ?w1"
    using assms(1) by (simp add: writeData_frame)
  have t2: "tables ?w2 (tableName st) = Some ?rows2"
    by (simp add: writeData_responds[OF r1 t1 assms(4)])
  have rd: "fst (readData st i ?w2) = Inr v2"
    using write_then_read[OF r1 t1 assms(5,4)] assms(6) by simp
  have len: "length ?rows2 = length ?rows1"
    by (rule length_upsert_row_present) (rule id_in_upsert_row)
  have d2: "distinct (map fst ?rows2)"
    by (intro distinct_upsert_row assms(3))
  have one: "length (filter (\<lambda>r. fst r = i) ?rows2) = 1"
    by (rule one_row_with_id[OF d2 id_in_upsert_row])
  have m: "map_of ?rows2 i = Some (Some (replacer v2))"
    by (rule map_of_upsert_row_same)
  from rd t1 t2 len d2 one m show ?thesis
    by blast
qed

theorem upsert_replaces_witness:
  "responsive locals0 world1 \<and> tables world1 (tableName locals0) = Some []
   \<and> distinct (map fst ([] :: table)) \<and> length ''creds'' \<le> 80
   \<and> is_object value0 \<and> reviver (replacer value0) = value0
   \<and> fst (readData locals0 ''creds''
            (snd (writeData locals0 ''creds'' value0
                    (snd (writeData locals0 ''creds'' value1 world1))))) = Inr value0"
proof -
  have t: "tables world1 (tableName locals0) = Some []"
    by (simp add: world1_def locals0_def)
  have d: "distinct (map fst ([] :: table))"
    by simp
  have l: "length ''creds'' \<le> 80"
    by simp
  have o: "is_object value0" and m: "reviver (replacer value0) = value0"
    by (simp_all add: value0_def marker_def)
  from upsert_replaces[OF responsive_world1 t d l o m, of value1]
    t o m responsive_world1
  show ?thesis by simp
qed



section \<open>The facade\<close>

lemma removeData_eq:
  "removeData st i w = (Inr (), snd (query st (DeleteId (tableName st) i) w))"
  by (simp add: removeData_def case_prod_beta)

lemma clearAll_eq:
  "clearAll st w = (Inr (), snd (query st (DeleteNotCreds (tableName st)) w))"
  by (simp add: clearAll_def case_prod_beta)

lemma removeAll_eq:
  "removeAll st w = (Inr (), snd (query st (DeleteAll (tableName st)) w))"
  by (simp add: removeAll_def case_prod_beta)

lemma dropTable_eq:
  "dropTable a w = (Inr (), snd (query (captured a) (DropTable (tableName (captured a))) w))"
  by (simp add: dropTable_def case_prod_beta)

lemma facade_query_eq:
  "facade_query a s w = (Inr (fst (query (captured a) s w)), snd (query (captured a) s w))"
  by (simp add: facade_query_def case_prod_beta)

lemma removeData_frame:
  "typeCast (snd (removeData st i w)) = typeCast w"
  "fails (snd (removeData st i w)) = fails w"
  "responsive st' (snd (removeData st i w)) = responsive st' w"
  by (simp_all add: removeData_eq query_frame responsive_after_query)

lemma clearAll_frame:
  "typeCast (snd (clearAll st w)) = typeCast w"
  "fails (snd (clearAll st w)) = fails w"
  "responsive st' (snd (clearAll st w)) = responsive st' w"
  by (simp_all add: clearAll_eq query_frame responsive_after_query)






lemma responsive_auth0: "responsive (captured auth0) world2"
  using responsive_world2 by (simp add: auth0_def)





lemma map_of_filter_key:
  "map_of (filter (\<lambda>r. fst r = k) rows) j = (if j = k then map_of rows k else None)"
  by (induction rows) auto

lemma clear_eq: "clear a w = (Inr (), snd (query (captured a) (DeleteNotCreds (tableName (captured a))) w))"
  by (simp add: clear_def clearAll_eq)


lemma clear_creds_row:
  "map_of (rows_of (tables (snd (clear a w))) (tableName (captured a))) ''creds''
     = map_of (rows_of (tables w) (tableName (captured a))) ''creds''"
proof -
  let ?st = "captured a"
  let ?q = "query ?st (DeleteNotCreds (tableName ?st)) w"
  from query_result[of ?st "DeleteNotCreds (tableName ?st)" w] consider
    (gave_up) "tables (snd ?q) = tables w"
    | (answered) "sql_exec (other_sql w) (typeCast w) (DeleteNotCreds (tableName ?st)) (tables w)
                    = Some (fst ?q, tables (snd ?q))"
    by blast
  then show ?thesis
  proof cases
    case gave_up
    then show ?thesis by (simp add: clear_eq)
  next
    case answered
    then obtain rows where r: "tables w (tableName ?st) = Some rows"
      and t: "tables (snd ?q) = (tables w)(tableName ?st \<mapsto> filter (\<lambda>r. fst r = ''creds'') rows)"
      by (auto split: option.splits)
    show ?thesis
      by (simp add: clear_eq t r rows_of_def map_of_filter_key)
  qed
qed

lemma clear_responds:
  assumes "responsive (captured a) w"
  shows "fst (readData (captured a) ''creds'' (snd (clear a w)))
           = fst (readData (captured a) ''creds'' w)
       \<and> (\<forall>i. i \<noteq> ''creds'' \<longrightarrow>
             i \<notin> fst ` set (rows_of (tables (snd (clear a w))) (tableName (captured a)))
           \<and> fst (readData (captured a) i (snd (clear a w))) = Inr VNull)"
proof (cases "tables w (tableName (captured a))")
  case None
  let ?st = "captured a"
  have "sql_exec (other_sql w) (typeCast w) (DeleteNotCreds (tableName ?st)) (tables w) = None"
    using None by simp
  then have t: "tables (snd (clear a w)) = tables w"
    using query_gives_up(2) by (simp add: clear_eq)
  have g: "fst (readData ?st i (snd (clear a w))) = Inr VNull" for i
    by (rule readData_gives_up) (simp add: t None)
  have g0: "fst (readData ?st i w) = Inr VNull" for i
    by (rule readData_gives_up) (simp add: None)
  from t g g0 None show ?thesis
    by (simp add: clear_eq rows_of_def)
next
  case (Some rows)
  let ?st = "captured a"
  let ?w' = "snd (clear a w)"
  have "sql_exec (other_sql w) (typeCast w) (DeleteNotCreds (tableName ?st)) (tables w)
      = Some (ResultSetHeader, (tables w)(tableName ?st \<mapsto> filter (\<lambda>r. fst r = ''creds'') rows))"
    using Some by simp
  from query_responds(2)[OF assms this]
  have t: "tables ?w' (tableName ?st) = Some (filter (\<lambda>r. fst r = ''creds'') rows)"
    by (simp add: clear_eq)
  have r: "responsive ?st ?w'"
    using assms by (simp add: clear_eq responsive_after_query)
  have c: "typeCast ?w' = typeCast w"
    by (simp add: clear_eq query_frame)
  have same: "fst (readData ?st ''creds'' ?w') = fst (readData ?st ''creds'' w)"
    by (simp add: readData_responds(1)[OF r t] readData_responds(1)[OF assms Some]
        map_of_filter_key c)
  have gone: "i \<notin> fst ` set (rows_of (tables ?w') (tableName ?st))" if "i \<noteq> ''creds''" for i
    using that by (auto simp: rows_of_def t)
  from same gone readData_absent show ?thesis
    by simp
qed

text \<open>
  Claim C6. \<open>clear\<close> returns normally and the row of \<open>creds\<close> is what it was, in every
  world. When the store answers within the retry budget, reading \<open>creds\<close> gives what it
  gave before, and every other id, written before or not, has no row any more and reads
  as null.
\<close>

theorem clear_keeps_credentials:
  "fst (clear a w) = Inr ()
   \<and> map_of (rows_of (tables (snd (clear a w))) (tableName (captured a))) ''creds''
       = map_of (rows_of (tables w) (tableName (captured a))) ''creds''
   \<and> (responsive (captured a) w \<longrightarrow>
         fst (readData (captured a) ''creds'' (snd (clear a w)))
           = fst (readData (captured a) ''creds'' w)
       \<and> (\<forall>i. i \<noteq> ''creds'' \<longrightarrow>
             i \<notin> fst ` set (rows_of (tables (snd (clear a w))) (tableName (captured a)))
           \<and> fst (readData (captured a) i (snd (clear a w))) = Inr VNull))"
  using clear_creds_row[of a w] clear_responds[of a w] by (simp add: clear_eq)

theorem clear_keeps_credentials_witness:
  "responsive (captured auth0) world2
   \<and> fst (readData (captured auth0) ''creds'' world2) = Inr (VObj [(''registrationId'', VNum 7)])
   \<and> fst (readData (captured auth0) ''creds'' (snd (clear auth0 world2)))
       = Inr (VObj [(''registrationId'', VNum 7)])
   \<and> fst (readData (captured auth0) ''pre-key-1'' world2) = Inr (VObj [(''public'', VBuf [9])])
   \<and> fst (readData (captured auth0) ''pre-key-1'' (snd (clear auth0 world2))) = Inr VNull"
proof -
  have d: "decode_value (Some (cell True (Some j))) = Inr (reviver j)"
    if "truthy_json j \<and> raw_text j = JSON_stringify j" for j
    by (rule decode_value_document) (use that in simp)
  have b1: "fst (readData locals0 ''creds'' world2) = Inr (VObj [(''registrationId'', VNum 7)])"
    using readData_responds(1)[OF responsive_world2 world2_rows, of "''creds''"]
    by (simp add: typeCast_world2 d)
  have b2: "fst (readData locals0 ''pre-key-1'' world2) = Inr (VObj [(''public'', VBuf [9])])"
    using readData_responds(1)[OF responsive_world2 world2_rows, of "''pre-key-1''"]
    by (simp add: typeCast_world2 d) (simp add: marker_def)
  from clear_keeps_credentials[of auth0 world2] b1 b2 responsive_auth0 show ?thesis
    by (simp add: auth0_def)
qed


subsection \<open>Opening a store\<close>

lemma rows_of_create: "rows_of (if db t0 = None then db(t0 \<mapsto> []) else db) t = rows_of db t"
  by (simp add: rows_of_def)

lemma connection_unfolded:
  "connection config force w
     = (if newConnection w \<or> ended w \<or> force then
          (case fst (createConnection (connection_options config) w) of
             Inl e \<Rightarrow> (Inl e, snd (createConnection (connection_options config) w))
           | Inr h \<Rightarrow>
               if newConnection w then
                 (case fst (conn_execute h (CreateTable (or_string (cfg_tableName config) ''auth''))
                              ((snd (createConnection (connection_options config) w))\<lparr> conn := Some h \<rparr>)) of
                    Inl e \<Rightarrow>
                      (Inl e,
                       snd (conn_execute h (CreateTable (or_string (cfg_tableName config) ''auth''))
                              ((snd (createConnection (connection_options config) w))\<lparr> conn := Some h \<rparr>)))
                  | Inr d \<Rightarrow>
                      (Inr h,
                       snd (conn_execute h (CreateTable (or_string (cfg_tableName config) ''auth''))
                              ((snd (createConnection (connection_options config) w))\<lparr> conn := Some h \<rparr>))))
               else (Inr h, (snd (createConnection (connection_options config) w))\<lparr> conn := Some h \<rparr>))
        else (case conn w of Some h \<Rightarrow> (Inr h, w) | None \<Rightarrow> (Inl ConnectError, w)))"
  by (simp add: connection_def Let_def split: prod.splits sum.splits)

lemma connection_rows:
  "rows_of (tables (snd (connection config force w))) t = rows_of (tables w) t"
proof -
  have ex: "rows_of (tables (snd (conn_execute h (CreateTable t0) v))) t = rows_of (tables v) t"
    for h t0 v
    by (simp add: conn_execute_def run_statement_def driver_call_def rows_of_create)
  have cc: "tables (snd (createConnection opts v)) = tables v" for opts v
    by (simp add: createConnection_def driver_call_def Let_def)
  show ?thesis
    by (simp add: connection_unfolded ex cc split: sum.splits option.splits)
qed

lemma open_rows:
  "rows_of (tables (snd (useMySQLAuthState U config w))) t = rows_of (tables w) t"
proof -
  obtain r w1 where c: "connection config False w = (r, w1)"
    by (cases "connection config False w")
  have t1: "rows_of (tables w1) t = rows_of (tables w) t"
    using connection_rows[of config False w t] c by simp
  show ?thesis
  proof (cases r)
    case (Inl e)
    with c t1 show ?thesis by (simp add: open_failed)
  next
    case (Inr h)
    with c t1 show ?thesis by (simp add: open_connected(1) readData_tables)
  qed
qed

lemma saveCreds_eq: "saveCreds a w = writeData (captured a) ''creds'' (creds a) w"
  by (simp add: saveCreds_def)


text \<open>
  Claim C7. A store is opened, with success, on a database that holds no \<open>creds\<close> row
  (the table may not exist yet). Then \<open>state.creds\<close> is the fresh bundle of
  \<open>initAuthCreds\<close>, which is not null, and no call of \<open>saveCreds\<close> was needed for that.
  Opening wrote no row: every table holds the rows it held (the table itself may have
  been created, empty). The bundle reaches the table when \<open>saveCreds\<close> is called: if the
  store answers and the table exists, the \<open>creds\<close> row then holds the bundle's document.
\<close>

theorem open_default_credentials:
  assumes "useMySQLAuthState U config w = (Inr a, w')"
    and "''creds'' \<notin> fst ` set (rows_of (tables w) (or_string (cfg_tableName config) ''auth''))"
  shows "creds a = initAuthCreds U \<and> creds a \<noteq> VNull
       \<and> (\<forall>t. rows_of (tables w') t = rows_of (tables w) t)
       \<and> (\<forall>rows. responsive (captured a) w' \<and> tables w' (tableName (captured a)) = Some rows
             \<longrightarrow> map_of (rows_of (tables (snd (saveCreds a w'))) (tableName (captured a))) ''creds''
                   = Some (Some (replacer (creds a))))"
proof -
  obtain r w1 where c: "connection config False w = (r, w1)"
    by (cases "connection config False w")
  from assms(1) c obtain h where r: "r = Inr h"
    by (cases r) (auto simp: open_failed)
  let ?st = "captured_constants config h"
  have tn: "tableName ?st = or_string (cfg_tableName config) ''auth''"
    by (simp add: captured_constants_def)
  have "rows_of (tables w1) (tableName ?st) = rows_of (tables w) (tableName ?st)"
    using connection_rows[of config False w] c by simp
  with assms(2) tn have "''creds'' \<notin> fst ` set (rows_of (tables w1) (tableName ?st))"
    by simp
  then have rd: "fst (readData ?st ''creds'' w1) = Inr VNull"
    by (rule readData_absent)
  have a: "a = \<lparr> captured = ?st, creds = initAuthCreds U \<rparr>"
    using open_connected(2)[OF c[unfolded r], of U] assms(1) rd by simp
  have rows: "rows_of (tables w') t = rows_of (tables w) t" for t
    using open_rows[of U config w t] assms(1) by simp
  have save: "map_of (rows_of (tables (snd (saveCreds a w'))) (tableName (captured a))) ''creds''
                   = Some (Some (replacer (creds a)))"
    if "responsive (captured a) w'" and "tables w' (tableName (captured a)) = Some rows" for rows
    by (simp add: saveCreds_eq writeData_responds[OF that] rows_of_def map_of_upsert_row_same)
  from a rows save show ?thesis
    by (simp add: initAuthCreds_def)
qed

theorem open_default_credentials_witness:
  "fst (useMySQLAuthState U0 config0 world0) = Inr auth0
   \<and> ''creds'' \<notin> fst ` set (rows_of (tables world0) (or_string (cfg_tableName config0) ''auth''))
   \<and> creds auth0 = initAuthCreds U0
   \<and> creds auth0 = VObj [(''registrationId'', VNum 7)]
   \<and> (\<forall>t. rows_of (tables (snd (useMySQLAuthState U0 config0 world0))) t = [])"
proof -
  have h: "useMySQLAuthState U0 config0 world0
             = (Inr auth0, snd (useMySQLAuthState U0 config0 world0))"
    using open_world0 by (metis prod.collapse)
  have n: "''creds'' \<notin> fst ` set (rows_of (tables world0) (or_string (cfg_tableName config0) ''auth''))"
    by (simp add: rows_of_def world0_def)
  have e: "rows_of (tables world0) t = []" for t
    by (simp add: rows_of_def world0_def)
  have v: "creds auth0 = VObj [(''registrationId'', VNum 7)]"
    by (simp add: auth0_def value1_def)
  from open_default_credentials[OF h n] open_world0 n e v show ?thesis
    by metis
qed


subsection \<open>Failures of the database\<close>

lemma keys_set_ids_returns: "fst (keys_set_ids st category ids w) = Inr ()"
proof (induction ids arbitrary: w)
  case Nil
  show ?case by simp
next
  case (Cons p ids)
  obtain i v where p: "p = (i, v)" by (cases p)
  show ?case
    by (simp add: p writeData_eq removeData_eq Cons.IH)
qed

lemma keys_set_returns: "fst (keys_set a data w) = Inr ()"
proof -
  have "fst (keys_set_from st d v) = Inr ()" for st d v
  proof (induction d arbitrary: v)
    case Nil
    show ?case by simp
  next
    case (Cons p d)
    obtain c ids where p: "p = (c, ids)" by (cases p)
    have "\<exists>v1. keys_set_ids st c ids v = (Inr (), v1)"
      using keys_set_ids_returns[of st c ids v] by (cases "keys_set_ids st c ids v") simp
    then show ?case
      by (auto simp: p Cons.IH)
  qed
  then show ?thesis by (simp add: keys_set_def)
qed

lemma query_down:
  assumes "\<forall>n. fails w n"
  shows "fst (query st s w) = Rows []" and "tables (snd (query st s w)) = tables w"
    and "\<forall>n. fails (snd (query st s w)) n"
  using assms query_gives_up[of w s st] by (simp_all add: query_frame)

lemma keys_set_ids_down:
  assumes "\<forall>n. fails w n"
  shows "tables (snd (keys_set_ids st category ids w)) = tables w
       \<and> (\<forall>n. fails (snd (keys_set_ids st category ids w)) n)"
  using assms
proof (induction ids arbitrary: w)
  case Nil
  then show ?case by simp
next
  case (Cons p ids)
  obtain i v where p: "p = (i, v)" by (cases p)
  let ?s = "if truthy v then Upsert (tableName st) (category @ ''-'' @ i) (serialize v) (serialize v)
            else DeleteId (tableName st) (category @ ''-'' @ i)"
  have step: "keys_set_ids st category (p # ids) w
                = keys_set_ids st category ids (snd (query st ?s w))"
    by (simp add: p writeData_eq removeData_eq)
  from Cons.IH[of "snd (query st ?s w)"] query_down(2,3)[OF Cons.prems, of st ?s]
  show ?case
    unfolding step by simp
qed

lemma keys_set_down:
  assumes "\<forall>n. fails w n"
  shows "tables (snd (keys_set a data w)) = tables w"
proof -
  have "tables (snd (keys_set_from st d v)) = tables v \<and> (\<forall>n. fails (snd (keys_set_from st d v)) n)"
    if "\<forall>n. fails v n" for st d v
    using that
  proof (induction d arbitrary: v)
    case Nil
    then show ?case by simp
  next
    case (Cons p d)
    obtain c ids where p: "p = (c, ids)" by (cases p)
    obtain v1 where k: "keys_set_ids st c ids v = (Inr (), v1)"
      using keys_set_ids_returns[of st c ids v] by (cases "keys_set_ids st c ids v") simp
    have v1: "tables v1 = tables v" "\<forall>n. fails v1 n"
      using keys_set_ids_down[OF Cons.prems, of st c ids] k by simp_all
    from Cons.IH[OF v1(2)] v1(1) show ?case
      by (simp add: p k)
  qed
  from this[OF assms] show ?thesis by (simp add: keys_set_def)
qed

lemma readData_down:
  assumes "\<forall>n. fails w n"
  shows "fst (readData st i w) = Inr VNull"
    and "tables (snd (readData st i w)) = tables w"
    and "\<forall>n. fails (snd (readData st i w)) n"
  using query_down[OF assms, of st "Select (tableName st) i"]
  by (simp_all add: readData_eq decode_value_def)

lemma assign_null:
  assumes "proto data = ObjectPrototype \<or> proto data = NullPrototype"
  shows "\<exists>d. assign U data k VNull = Inr d
           \<and> (proto d = ObjectPrototype \<or> proto d = NullPrototype)
           \<and> (\<forall>j. j \<noteq> ''__proto__'' \<longrightarrow> own d j = (if j = k then Some VNull else own data j))
           \<and> (own d ''__proto__'' = own data ''__proto__'' \<or> own d ''__proto__'' = Some VNull)"
  using assms by (auto simp: assign_def assign_under_Object_def define_own_def)

lemma keys_get_from_down:
  assumes "\<forall>n. fails w n" and "proto data = ObjectPrototype \<or> proto data = NullPrototype"
  shows "(\<exists>d. fst (keys_get_from U st ty ids data w) = Inr d
            \<and> (\<forall>j. j \<noteq> ''__proto__'' \<longrightarrow>
                   own d j = (if j \<in> set ids then Some VNull else own data j))
            \<and> (own d ''__proto__'' = own data ''__proto__'' \<or> own d ''__proto__'' = Some VNull))
       \<and> tables (snd (keys_get_from U st ty ids data w)) = tables w"
  using assms
proof (induction ids arbitrary: data w)
  case Nil
  show ?case by simp
next
  case (Cons i ids)
  obtain w1 where rd: "readData st (ty @ ''-'' @ i) w = (Inr VNull, w1)"
    using readData_down(1)[OF Cons.prems(1), of st "ty @ ''-'' @ i"]
    by (cases "readData st (ty @ ''-'' @ i) w") simp
  have w1: "\<forall>n. fails w1 n" "tables w1 = tables w"
    using readData_down(2,3)[OF Cons.prems(1), of st "ty @ ''-'' @ i"] rd by simp_all
  from assign_null[OF Cons.prems(2), of U i] obtain d1 where
    a: "assign U data i VNull = Inr d1"
    and p: "proto d1 = ObjectPrototype \<or> proto d1 = NullPrototype"
    and o: "\<forall>j. j \<noteq> ''__proto__'' \<longrightarrow> own d1 j = (if j = i then Some VNull else own data j)"
    and q: "own d1 ''__proto__'' = own data ''__proto__'' \<or> own d1 ''__proto__'' = Some VNull"
    by blast
  have step: "keys_get_from U st ty (i # ids) data w = keys_get_from U st ty ids d1 w1"
    using rd a by simp
  from Cons.IH[OF w1(1) p] obtain d where
    r: "fst (keys_get_from U st ty ids d1 w1) = Inr d"
    and o': "\<forall>j. j \<noteq> ''__proto__'' \<longrightarrow> own d j = (if j \<in> set ids then Some VNull else own d1 j)"
    and q': "own d ''__proto__'' = own d1 ''__proto__'' \<or> own d ''__proto__'' = Some VNull"
    and t: "tables (snd (keys_get_from U st ty ids d1 w1)) = tables w1"
    by blast
  have o'': "\<forall>j. j \<noteq> ''__proto__'' \<longrightarrow>
               own d j = (if j \<in> set (i # ids) then Some VNull else own data j)"
    using o o' by simp
  have q'': "own d ''__proto__'' = own data ''__proto__'' \<or> own d ''__proto__'' = Some VNull"
    using q q' by auto
  have t': "tables (snd (keys_get_from U st ty ids d1 w1)) = tables w"
    using t w1(2) by simp
  from r o'' q'' t' show ?case
    unfolding step by blast
qed

lemma keys_get_from_step_down:
  assumes "\<forall>n. fails w n"
  shows "fst (keys_get_from U st ty (i # ids) data w)
           = (case assign U data i VNull of
                Inl e \<Rightarrow> Inl e
              | Inr d \<Rightarrow> fst (keys_get_from U st ty ids d (snd (readData st (ty @ ''-'' @ i) w))))"
  using readData_down(1)[OF assms, of st "ty @ ''-'' @ i"]
  by (cases "readData st (ty @ ''-'' @ i) w") (simp split: sum.splits)


text \<open>
  Claim C10. In every world \<open>keys.set\<close>, \<open>saveCreds\<close>, \<open>clear\<close>, \<open>removeCreds\<close>,
  \<open>dropTable\<close> and the raw \<open>query\<close> return without an error. When the driver rejects
  every call, \<open>keys.get\<close> returns without an error as well: every read gives null, and
  in the object returned every requested id other than \<open>__proto__\<close> is a property that
  holds null, no id that was not requested is a property, and \<open>__proto__\<close> either is no
  property or holds null. \<open>query\<close> returns the empty row list, and no operation changes
  any table: the writes and deletes are lost without a trace for the caller.
\<close>

theorem failures_are_swallowed:
  "fst (keys_set a data w) = Inr ()
   \<and> fst (saveCreds a w) = Inr ()
   \<and> fst (clear a w) = Inr ()
   \<and> fst (removeCreds a w) = Inr ()
   \<and> fst (dropTable a w) = Inr ()
   \<and> (\<exists>rows. fst (facade_query a s w) = Inr rows)
   \<and> ((\<forall>n. fails w n) \<longrightarrow>
         (\<exists>d. fst (keys_get U a ty ids w) = Inr d
             \<and> (\<forall>i. i \<noteq> ''__proto__'' \<longrightarrow>
                    own d i = (if i \<in> set ids then Some VNull else None))
             \<and> (own d ''__proto__'' = None \<or> own d ''__proto__'' = Some VNull))
       \<and> (\<forall>i. fst (readData (captured a) i w) = Inr VNull)
       \<and> fst (facade_query a s w) = Inr (Rows [])
       \<and> tables (snd (keys_get U a ty ids w)) = tables w
       \<and> tables (snd (keys_set a data w)) = tables w
       \<and> tables (snd (saveCreds a w)) = tables w
       \<and> tables (snd (clear a w)) = tables w
       \<and> tables (snd (removeCreds a w)) = tables w
       \<and> tables (snd (dropTable a w)) = tables w
       \<and> tables (snd (facade_query a s w)) = tables w)"
proof -
  have always: "fst (keys_set a data w) = Inr ()" "fst (saveCreds a w) = Inr ()"
    "fst (clear a w) = Inr ()" "fst (removeCreds a w) = Inr ()" "fst (dropTable a w) = Inr ()"
    "\<exists>rows. fst (facade_query a s w) = Inr rows"
    by (simp_all add: keys_set_returns saveCreds_eq writeData_eq clear_eq removeCreds_def
        removeAll_eq dropTable_eq facade_query_eq)
  have get: "(\<exists>d. fst (keys_get U a ty ids w) = Inr d
             \<and> (\<forall>i. i \<noteq> ''__proto__'' \<longrightarrow>
                    own d i = (if i \<in> set ids then Some VNull else None))
             \<and> (own d ''__proto__'' = None \<or> own d ''__proto__'' = Some VNull))
       \<and> tables (snd (keys_get U a ty ids w)) = tables w"
    if d: "\<forall>n. fails w n"
  proof -
    have e: "proto empty_object = ObjectPrototype \<or> proto empty_object = NullPrototype"
      by (simp add: empty_object_def)
    have o: "own empty_object j = None" for j
      by (simp add: empty_object_def)
    from keys_get_from_down[OF d e, of U "captured a" ty ids] show ?thesis
      by (simp add: keys_get_def o cong: if_cong)
  qed
  have down: "(\<forall>i. fst (readData (captured a) i w) = Inr VNull)
       \<and> fst (facade_query a s w) = Inr (Rows [])
       \<and> tables (snd (keys_set a data w)) = tables w
       \<and> tables (snd (saveCreds a w)) = tables w
       \<and> tables (snd (clear a w)) = tables w
       \<and> tables (snd (removeCreds a w)) = tables w
       \<and> tables (snd (dropTable a w)) = tables w
       \<and> tables (snd (facade_query a s w)) = tables w"
    if d: "\<forall>n. fails w n"
    using readData_down(1)[OF d] keys_set_down[OF d, of a data] query_down(1,2)[OF d]
    by (simp add: saveCreds_eq writeData_eq clear_eq removeCreds_def
        removeAll_eq dropTable_eq facade_query_eq)
  from always get down show ?thesis
    by blast
qed

theorem failures_are_swallowed_witness:
  "(\<forall>n. fails world_down n)
   \<and> fst (keys_get U0 auth0 ''pre-key'' [''1'', ''2''] world_down)
       = Inr \<lparr> own = [''1'' \<mapsto> VNull, ''2'' \<mapsto> VNull], proto = ObjectPrototype \<rparr>
   \<and> fst (readData (captured auth0) ''pre-key-1'' world_down) = Inr VNull
   \<and> fst (keys_set auth0 [(''pre-key'', [(''1'', VNull), (''2'', value0)])] world_down) = Inr ()
   \<and> tables (snd (keys_set auth0 [(''pre-key'', [(''1'', VNull), (''2'', value0)])] world_down))
       = tables world_down
   \<and> fst (saveCreds auth0 world_down) = Inr ()
   \<and> fst (facade_query auth0 (Select ''auth'' ''creds'') world_down) = Inr (Rows [])"
proof -
  have d: "\<forall>n. fails world_down n"
    by (simp add: world_down_def)
  have d1: "\<forall>n. fails (snd (readData (captured auth0) (''pre-key'' @ ''-'' @ ''1'') world_down)) n"
    by (rule readData_down(3)[OF d])
  have g: "fst (keys_get U0 auth0 ''pre-key'' [''1'', ''2''] world_down)
       = Inr \<lparr> own = [''1'' \<mapsto> VNull, ''2'' \<mapsto> VNull], proto = ObjectPrototype \<rparr>"
    unfolding keys_get_def
    by (simp only: keys_get_from_step_down[OF d] keys_get_from_step_down[OF d1])
       (simp add: assign_def assign_under_Object_def define_own_def empty_object_def)
  from failures_are_swallowed[of auth0 "[(''pre-key'', [(''1'', VNull), (''2'', value0)])]"
      world_down "Select ''auth'' ''creds''" U0 "''pre-key''" "[''1'', ''2'']"] d g
  show ?thesis by simp
qed


end
